theory Spec2Isabelle
  imports Complex_Main "HOL-Library.Sublist"
begin

section \<open>Python values\<close>

text \<open>
  The values that cross the boundaries of \<^verbatim>\<open>agent/tools.py\<close>: what the search provider
  answers (parsed JSON) and the dictionaries the tools build. A \<open>char\<close> stands for one
  character of a Python \<^verbatim>\<open>str\<close>; only the length and the prefix of a string matter below.
  A dictionary is an association list with string keys, read with \<open>map_of\<close>.
  A float is only ever tested for being zero.
\<close>

datatype pyval =
    PNone
  | PBool bool
  | PInt int
  | PFloat real
  | PStr string
  | PList "pyval list"
  | PDict "(string \<times> pyval) list"

type_synonym pydict = "(string \<times> pyval) list"

text \<open>
  An exception: its class and \<^verbatim>\<open>str(e)\<close>. \<open>PyExc\<close> is an instance of \<^verbatim>\<open>Exception\<close>;
  \<open>PyBaseExc\<close> is an instance of \<^verbatim>\<open>BaseException\<close> only (\<^verbatim>\<open>KeyboardInterrupt\<close>,
  \<^verbatim>\<open>SystemExit\<close>, \<^verbatim>\<open>GeneratorExit\<close>), which \<^verbatim>\<open>except Exception\<close> does not catch.
\<close>

datatype pyexc =
    PyExc (exc_class: string) (exc_str: string)
  | PyBaseExc (exc_class: string) (exc_str: string)

fun is_Exception :: "pyexc \<Rightarrow> bool" where
  "is_Exception (PyExc c m) = True"
| "is_Exception (PyBaseExc c m) = False"

text \<open>A name between apostrophes, as the interpreter's messages print it.\<close>

definition quoted :: "string \<Rightarrow> string" where
  "quoted s = CHR 0x27 # s @ [CHR 0x27]"

text \<open>\<^verbatim>\<open>str\<close> of a natural number and of an integer, in decimal.\<close>

definition digit_char :: "nat \<Rightarrow> char" where
  "digit_char d = ''0123456789'' ! d"

function str_nat :: "nat \<Rightarrow> string" where
  "str_nat n = (if n < 10 then [digit_char n] else str_nat (n div 10) @ [digit_char (n mod 10)])"
  by pat_completeness auto
termination
  by (relation "measure (\<lambda>n. n)") auto

declare str_nat.simps [simp del]

definition str_int :: "int \<Rightarrow> string" where
  "str_int i = (if i < 0 then CHR ''-'' # str_nat (nat (- i)) else str_nat (nat i))"

fun type_name :: "pyval \<Rightarrow> string" where
  "type_name PNone = ''NoneType''"
| "type_name (PBool _) = ''bool''"
| "type_name (PInt _) = ''int''"
| "type_name (PFloat _) = ''float''"
| "type_name (PStr _) = ''str''"
| "type_name (PList _) = ''list''"
| "type_name (PDict _) = ''dict''"

text \<open>Truth value of an object, as \<^verbatim>\<open>not x\<close> and \<^verbatim>\<open>x or y\<close> test it.\<close>

fun truthy :: "pyval \<Rightarrow> bool" where
  "truthy PNone = False"
| "truthy (PBool b) = b"
| "truthy (PInt i) = (i \<noteq> 0)"
| "truthy (PFloat x) = (x \<noteq> 0)"
| "truthy (PStr s) = (s \<noteq> [])"
| "truthy (PList xs) = (xs \<noteq> [])"
| "truthy (PDict kvs) = (kvs \<noteq> [])"

definition py_or :: "pyval \<Rightarrow> pyval \<Rightarrow> pyval" where
  "py_or a b = (if truthy a then a else b)"

text \<open>\<^verbatim>\<open>k in d\<close> and \<^verbatim>\<open>d.get(k, default)\<close> on a dictionary.\<close>

definition dict_has :: "pydict \<Rightarrow> string \<Rightarrow> bool" where
  "dict_has d k = (map_of d k \<noteq> None)"

definition dict_get :: "pydict \<Rightarrow> string \<Rightarrow> pyval \<Rightarrow> pyval" where
  "dict_get d k dflt = (case map_of d k of None \<Rightarrow> dflt | Some v \<Rightarrow> v)"

text \<open>\<^verbatim>\<open>r.get(key, default)\<close> on any value: only a dictionary has the method.\<close>

fun py_get :: "pyval \<Rightarrow> string \<Rightarrow> pyval \<Rightarrow> pyexc + pyval" where
  "py_get (PDict kvs) k d = Inr (dict_get kvs k d)"
| "py_get v k d =
     Inl (PyExc ''AttributeError''
       (quoted (type_name v) @ '' object has no attribute '' @ quoted ''get''))"

text \<open>
  \<^verbatim>\<open>v[:n]\<close>: a string and a list are cut to their first \<open>n\<close> elements; a dictionary
  rejects the slice as a key (a \<^verbatim>\<open>TypeError\<close> up to Python 3.11, a \<^verbatim>\<open>KeyError\<close> from
  3.12 on, an \<^verbatim>\<open>Exception\<close> either way); nothing else is subscriptable.
\<close>

fun py_slice_to :: "nat \<Rightarrow> pyval \<Rightarrow> pyexc + pyval" where
  "py_slice_to n (PStr s) = Inr (PStr (take n s))"
| "py_slice_to n (PList xs) = Inr (PList (take n xs))"
| "py_slice_to n (PDict kvs) =
     Inl (PyExc ''TypeError'' (''unhashable type: '' @ quoted ''slice''))"
| "py_slice_to n v =
     Inl (PyExc ''TypeError'' (quoted (type_name v) @ '' object is not subscriptable''))"

text \<open>
  What a \<^verbatim>\<open>for\<close> loop iterates over: the elements of a list, the characters of a string,
  the keys of a dictionary; nothing else is iterable.
\<close>

fun py_iter :: "pyval \<Rightarrow> pyexc + pyval list" where
  "py_iter (PList xs) = Inr xs"
| "py_iter (PStr s) = Inr (map (\<lambda>c. PStr [c]) s)"
| "py_iter (PDict kvs) = Inr (map (\<lambda>kv. PStr (fst kv)) kvs)"
| "py_iter v = Inl (PyExc ''TypeError'' (quoted (type_name v) @ '' object is not iterable''))"

text \<open>\<^verbatim>\<open>len\<close> of a string or a list; other values have no length here.\<close>

fun py_len :: "pyval \<Rightarrow> nat option" where
  "py_len (PStr s) = Some (length s)"
| "py_len (PList xs) = Some (length xs)"
| "py_len (PDict kvs) = Some (length kvs)"
| "py_len _ = None"

definition is_str :: "pyval \<Rightarrow> bool" where
  "is_str v = (case v of PStr _ \<Rightarrow> True | _ \<Rightarrow> False)"

section \<open>What the tools run in\<close>

text \<open>
  What lies outside the repository and the tools depend on.
  \<^item> \<open>stdout\<close>: what \<^verbatim>\<open>print\<close> does with a line, nothing (the line is written) or the
    exception it raises (\<^verbatim>\<open>UnicodeEncodeError\<close> on text the stream cannot encode, an
    \<^verbatim>\<open>OSError\<close> on a broken stream).
  \<^item> \<open>modules\<close>: what the \<^verbatim>\<open>import\<close> statements of lines 98 and 99 raise, if anything.
  \<^item> \<open>environ\<close>: the process environment (\<^verbatim>\<open>os.environ\<close>).
  \<^item> \<open>tavily\<close>: the search provider,
    \<^verbatim>\<open>TavilyClient(api_key=k).search(query=q, max_results=n, ...)\<close>: given the key, the
    query and the bound it raises an exception or answers a value.
  Faults for lack of resources (no memory, no thread to start) are not modelled.
\<close>

type_synonym provider = "string \<Rightarrow> string \<Rightarrow> int \<Rightarrow> pyexc + pyval"

record host =
  stdout :: "string \<Rightarrow> pyexc option"
  modules :: "pyexc option"
  environ :: "string \<rightharpoonup> string"
  tavily :: provider

text \<open>The lines the tools print (lines 29, 53, 57, 96 and 175).\<close>

definition search_started :: "string \<Rightarrow> int \<Rightarrow> string" where
  "search_started query max_results =
     ''[TOOL] internet_search: query='' @ quoted query @ '', max_results='' @ str_int max_results"

definition search_found :: "nat \<Rightarrow> string" where
  "search_found n = ''[TOOL] internet_search: found '' @ str_nat n @ '' results''"

definition search_failed :: "pyexc \<Rightarrow> string" where
  "search_failed e = ''[TOOL] internet_search error: '' @ exc_str e"

definition research_started :: "string \<Rightarrow> string" where
  "research_started query =
     ''[TOOL] research: query='' @ quoted query @ '' (using thread isolation)''"

definition research_completed :: "nat \<Rightarrow> string" where
  "research_completed n = ''[TOOL] research: completed with '' @ str_nat n @ '' sources''"

section \<open>The query client: \<^verbatim>\<open>_do_internet_search\<close>\<close>

text \<open>One iteration of the formatting loop (lines 47 to 51): the dictionary built from a
  provider record \<open>r\<close>.\<close>

definition format_result :: "pyval \<Rightarrow> pyexc + pydict" where
  "format_result r =
     (case py_get r ''url'' (PStr '''') of
        Inl e \<Rightarrow> Inl e
      | Inr url \<Rightarrow>
          (case py_get r ''title'' (PStr '''') of
             Inl e \<Rightarrow> Inl e
           | Inr title \<Rightarrow>
               (case py_get r ''content'' PNone of
                  Inl e \<Rightarrow> Inl e
                | Inr c \<Rightarrow>
                    (case py_slice_to 3000 (py_or c (PStr '''')) of
                       Inl e \<Rightarrow> Inl e
                     | Inr content \<Rightarrow>
                         Inr [(''url'', url), (''title'', title), (''content'', content)]))))"

text \<open>The loop of lines 45 to 51, appending to \<open>formatted_results\<close>; an exception leaves
  the loop.\<close>

fun format_results :: "pyval list \<Rightarrow> pydict list \<Rightarrow> pyexc + pydict list" where
  "format_results [] formatted_results = Inr formatted_results"
| "format_results (r # rs) formatted_results =
     (case format_result r of
        Inl e \<Rightarrow> Inl e
      | Inr d \<Rightarrow> format_results rs (formatted_results @ [d]))"

text \<open>The body of the \<^verbatim>\<open>try\<close> block (lines 36 to 54): the request, the loop, the line
  printed at line 53, the \<^verbatim>\<open>return\<close>.\<close>

definition search_body :: "host \<Rightarrow> string \<Rightarrow> string \<Rightarrow> int \<Rightarrow> pyexc + pydict list" where
  "search_body h tavily_key query max_results =
     (case tavily h tavily_key query max_results of
        Inl e \<Rightarrow> Inl e
      | Inr results \<Rightarrow>
          (case py_get results ''results'' (PList []) of
             Inl e \<Rightarrow> Inl e
           | Inr listed \<Rightarrow>
               (case py_iter listed of
                  Inl e \<Rightarrow> Inl e
                | Inr rs \<Rightarrow>
                    (case format_results rs [] of
                       Inl e \<Rightarrow> Inl e
                     | Inr formatted_results \<Rightarrow>
                         (case stdout h (search_found (length formatted_results)) of
                            Some e \<Rightarrow> Inl e
                          | None \<Rightarrow> Inr formatted_results)))))"

text \<open>
  \<^verbatim>\<open>_do_internet_search\<close> (lines 19 to 58). The line of line 29 is printed first. The key is
  read and tested before the \<^verbatim>\<open>try\<close>: without it the function raises. An exception of the
  body that is an \<^verbatim>\<open>Exception\<close> is handled (line 56): its line is printed and the
  one-element list holding the error marker is returned; any other exception of the body,
  and an exception of the \<^verbatim>\<open>print\<close> in the handler, leave the function.
\<close>

definition do_internet_search :: "host \<Rightarrow> string \<Rightarrow> int \<Rightarrow> pyexc + pydict list" where
  "do_internet_search h query max_results =
     (case stdout h (search_started query max_results) of
        Some e \<Rightarrow> Inl e
      | None \<Rightarrow>
          (case environ h ''TAVILY_API_KEY'' of
             None \<Rightarrow> Inl (PyExc ''RuntimeError'' ''TAVILY_API_KEY not set'')
           | Some tavily_key \<Rightarrow>
               if tavily_key = [] then Inl (PyExc ''RuntimeError'' ''TAVILY_API_KEY not set'')
               else
                 (case search_body h tavily_key query max_results of
                    Inr formatted_results \<Rightarrow> Inr formatted_results
                  | Inl e \<Rightarrow>
                      if is_Exception e then
                        (case stdout h (search_failed e) of
                           Some e' \<Rightarrow> Inl e'
                         | None \<Rightarrow> Inr [[(''error'', PStr (exc_str e))]])
                      else Inl e)))"

section \<open>The research tool\<close>

text \<open>
  The nested agent (\<^verbatim>\<open>create_deep_agent(...).invoke(...)\<close>, lines 124 to 152) is a library
  outside the repository. It is taken as a strategy: it returns (the contents of the
  messages of its final state), raises, or calls its only tool with a query and an
  optional bound and goes on from what the call gave it, a list or an exception. The
  construction of the model and of the agent happens inside the same thread and is part
  of the strategy. The tree is well-founded: the library bounds the number of steps of a
  run.
\<close>

datatype executor =
    Return "pyval list"
  | Raise pyexc
  | Search string "int option" "pyexc + pydict list \<Rightarrow> executor"

text \<open>
  \<^verbatim>\<open>internet_search_tracked\<close> (lines 110 to 122), with the list \<open>search_results\<close> it
  closes over passed in and returned. When the search raises, nothing is appended.
\<close>

definition internet_search_tracked ::
  "host \<Rightarrow> pydict list \<Rightarrow> string \<Rightarrow> int option
     \<Rightarrow> pydict list \<times> (pyexc + pydict list)" where
  "internet_search_tracked h search_results query max_results =
     (case do_internet_search h query (case max_results of None \<Rightarrow> 5 | Some n \<Rightarrow> n) of
        Inl e \<Rightarrow> (search_results, Inl e)
      | Inr results \<Rightarrow> (search_results @ results, Inr results))"

text \<open>The nested run: every tool call of the agent goes through the tracked search.\<close>

primrec run_executor ::
  "host \<Rightarrow> executor \<Rightarrow> pydict list \<Rightarrow> pydict list \<times> (pyexc + pyval list)" where
  "run_executor h (Return messages) search_results = (search_results, Inr messages)"
| "run_executor h (Raise e) search_results = (search_results, Inl e)"
| "run_executor h (Search query max_results k) search_results =
     (case internet_search_tracked h search_results query max_results of
        (search_results', r) \<Rightarrow> run_executor h (k r) search_results')"

text \<open>The dictionary \<^verbatim>\<open>research\<close> returns.\<close>

record research_outcome =
  summary :: pyval
  sources :: "pydict list"

text \<open>The element of the comprehension of lines 157 to 165 for a kept entry \<open>r\<close>.\<close>

definition source_record :: "pydict \<Rightarrow> pyexc + pydict" where
  "source_record r =
     (case map_of r ''url'' of
        None \<Rightarrow> Inl (PyExc ''KeyError'' (quoted ''url''))
      | Some url \<Rightarrow>
          (case py_slice_to 3000 (dict_get r ''content'' (PStr '''')) of
             Inl e \<Rightarrow> Inl e
           | Inr content \<Rightarrow>
               Inr [(''url'', url), (''title'', dict_get r ''title'' (PStr '''')),
                    (''content'', content), (''status'', PStr ''found'')]))"

text \<open>The comprehension: entries are visited in order, tested, and the kept ones mapped.\<close>

fun collect_sources :: "pydict list \<Rightarrow> pyexc + pydict list" where
  "collect_sources [] = Inr []"
| "collect_sources (r # rs) =
     (if dict_has r ''url'' \<and> \<not> truthy (dict_get r ''error'' PNone) then
        (case source_record r of
           Inl e \<Rightarrow> Inl e
         | Inr s \<Rightarrow>
             (case collect_sources rs of
                Inl e \<Rightarrow> Inl e
              | Inr ss \<Rightarrow> Inr (s # ss)))
      else collect_sources rs)"

text \<open>Lines 154 to 167: the summary is the content of the last message.\<close>

definition assemble :: "pydict list \<Rightarrow> pyval list \<Rightarrow> pyexc + research_outcome" where
  "assemble search_results messages =
     (if messages = [] then Inl (PyExc ''IndexError'' ''list index out of range'')
      else
        (case collect_sources search_results of
           Inl e \<Rightarrow> Inl e
         | Inr srcs \<Rightarrow> Inr \<lparr>summary = last messages, sources = srcs\<rparr>))"

text \<open>The rest of \<^verbatim>\<open>_run_research_isolated\<close> from a point of the nested run on.\<close>

definition run_research_from ::
  "host \<Rightarrow> executor \<Rightarrow> pydict list \<Rightarrow> pyexc + research_outcome" where
  "run_research_from h ex search_results =
     (case run_executor h ex search_results of
        (captured, Inl e) \<Rightarrow> Inl e
      | (captured, Inr messages) \<Rightarrow> assemble captured messages)"

text \<open>\<^verbatim>\<open>_run_research_isolated\<close> (lines 101 to 167): \<open>search_results\<close> starts empty.\<close>

definition run_research_isolated ::
  "host \<Rightarrow> (string \<Rightarrow> executor) \<Rightarrow> string \<Rightarrow> pyexc + research_outcome" where
  "run_research_isolated h agent query =
     run_research_from h (agent query) []"

text \<open>The list \<open>search_results\<close> holds when the nested run ends.\<close>

definition captured_trace ::
  "host \<Rightarrow> (string \<Rightarrow> executor) \<Rightarrow> string \<Rightarrow> pydict list" where
  "captured_trace h agent query = fst (run_executor h (agent query) [])"

text \<open>
  A future of \<^verbatim>\<open>concurrent.futures\<close>: \<^verbatim>\<open>submit\<close> runs the job and keeps its value or
  its exception; \<^verbatim>\<open>result()\<close> returns the value or raises that exception again.
\<close>

datatype 'a future = Future "pyexc + 'a"

definition submit :: "pyexc + 'a \<Rightarrow> 'a future" where
  "submit job = Future job"

fun future_result :: "'a future \<Rightarrow> pyexc + 'a" where
  "future_result (Future r) = r"

text \<open>Lines 173 to 176 in the caller: the outcome of the future, then the line of line 175,
  then the \<^verbatim>\<open>return\<close>.\<close>

definition conclude :: "host \<Rightarrow> pyexc + research_outcome \<Rightarrow> pyexc + research_outcome" where
  "conclude h r =
     (case r of
        Inl e \<Rightarrow> Inl e
      | Inr result \<Rightarrow>
          (case stdout h (research_completed (length (sources result))) of
             Some e \<Rightarrow> Inl e
           | None \<Rightarrow> Inr result))"

text \<open>
  \<^verbatim>\<open>research\<close> (lines 78 to 176): the line of line 96 and the imports of lines 98 and 99
  in the caller, then the job on the pool; no \<^verbatim>\<open>try\<close> stands around
  \<^verbatim>\<open>future.result()\<close>.
\<close>

definition research ::
  "host \<Rightarrow> (string \<Rightarrow> executor) \<Rightarrow> string \<Rightarrow> pyexc + research_outcome" where
  "research h agent query =
     (case stdout h (research_started query) of
        Some e \<Rightarrow> Inl e
      | None \<Rightarrow>
          (case modules h of
             Some e \<Rightarrow> Inl e
           | None \<Rightarrow>
               conclude h (future_result (submit (run_research_isolated h agent query)))))"

subsection \<open>What the statements below speak about\<close>

text \<open>The entries the loop of line 46 visits: what the provider's answer lists under
  \<^verbatim>\<open>results\<close> (none when the provider raised or the answer cannot be read).\<close>

definition provider_entries :: "host \<Rightarrow> string \<Rightarrow> string \<Rightarrow> int \<Rightarrow> pyval list" where
  "provider_entries h tavily_key query max_results =
     (case tavily h tavily_key query max_results of
        Inl e \<Rightarrow> []
      | Inr results \<Rightarrow>
          (case py_get results ''results'' (PList []) of
             Inl e \<Rightarrow> []
           | Inr listed \<Rightarrow> (case py_iter listed of Inl e \<Rightarrow> [] | Inr rs \<Rightarrow> rs)))"

text \<open>A provider record as the provider documents it: a dictionary whose \<^verbatim>\<open>url\<close> and
  \<^verbatim>\<open>title\<close>, where present, are strings and whose \<^verbatim>\<open>content\<close>, where present, is a
  string or \<^verbatim>\<open>None\<close>.\<close>

definition string_fields :: "pyval \<Rightarrow> bool" where
  "string_fields r =
     (case r of
        PDict kvs \<Rightarrow>
          (case map_of kvs ''url'' of None \<Rightarrow> True | Some v \<Rightarrow> is_str v) \<and>
          (case map_of kvs ''title'' of None \<Rightarrow> True | Some v \<Rightarrow> is_str v) \<and>
          (case map_of kvs ''content'' of None \<Rightarrow> True | Some v \<Rightarrow> is_str v \<or> v = PNone)
      | _ \<Rightarrow> False)"

text \<open>A provider all of whose answers list such records only.\<close>

definition string_provider :: "host \<Rightarrow> bool" where
  "string_provider h =
     (\<forall>tavily_key query max_results.
        list_all string_fields (provider_entries h tavily_key query max_results))"

text \<open>A content cut to 3000: a string of at most 3000 characters, or a list of at most 3000
  elements. And the first of the two only.\<close>

definition cut_content :: "pyval \<Rightarrow> bool" where
  "cut_content c =
     (case c of PStr s \<Rightarrow> length s \<le> 3000 | PList xs \<Rightarrow> length xs \<le> 3000 | _ \<Rightarrow> False)"

definition cut_string :: "pyval \<Rightarrow> bool" where
  "cut_string c = (case c of PStr s \<Rightarrow> length s \<le> 3000 | _ \<Rightarrow> False)"

text \<open>What a captured result can be: the error marker, or a dictionary with the keys
  \<^verbatim>\<open>url\<close>, \<^verbatim>\<open>title\<close> and \<^verbatim>\<open>content\<close> whose content is cut.\<close>

definition error_marker :: "pydict \<Rightarrow> bool" where
  "error_marker d = (case d of [(k, PStr m)] \<Rightarrow> k = ''error'' | _ \<Rightarrow> False)"

definition captured_entry :: "pydict \<Rightarrow> bool" where
  "captured_entry d =
     (error_marker d \<or>
      (map fst d = [''url'', ''title'', ''content''] \<and> cut_content (dict_get d ''content'' PNone)))"

definition captured_string_entry :: "pydict \<Rightarrow> bool" where
  "captured_string_entry d =
     (error_marker d \<or>
      (map fst d = [''url'', ''title'', ''content''] \<and> cut_string (dict_get d ''content'' PNone)))"

text \<open>The test of the comprehension of line 164.\<close>

definition kept :: "pydict \<Rightarrow> bool" where
  "kept r = (dict_has r ''url'' \<and> \<not> truthy (dict_get r ''error'' PNone))"

section \<open>The tool calls shown to the frontend\<close>

text \<open>\<^verbatim>\<open>agui_config\<close> of \<^verbatim>\<open>agent/main.py\<close> (lines 50 to 61): the names given as
  \<^verbatim>\<open>emit_tool_calls\<close>, then the recursion limit set on the result. The library function
  \<^verbatim>\<open>copilotkit_customize_config\<close> is taken to keep the names it is given.\<close>

record agui =
  emit_tool_calls :: "string list"
  recursion_limit :: "nat option"

definition copilotkit_customize_config :: "string list \<Rightarrow> agui" where
  "copilotkit_customize_config names = \<lparr>emit_tool_calls = names, recursion_limit = None\<rparr>"

definition agui_config :: agui where
  "agui_config =
     (copilotkit_customize_config
        [''research'', ''write_todos'', ''write_file'', ''read_file'', ''edit_file''])
     \<lparr>recursion_limit := Some 100\<rparr>"

record action =
  action_name :: string
  payload :: pyval

text \<open>
  Modelled from the spec: the Observer Filter, which lives in the CopilotKit library and not in
  the repository. Section 4.4: given the outgoing action stream and a fixed allow-list of
  action names, it forwards only allow-listed actions (by name) downstream and drops all
  others; a pure, stateless projection.
\<close>

definition observer_filter :: "string list \<Rightarrow> action list \<Rightarrow> action list" where
  "observer_filter allow stream = filter (\<lambda>a. action_name a \<in> set allow) stream"

section \<open>Calls in flight together\<close>

text \<open>
  \<^verbatim>\<open>research\<close> is an ordinary blocking function; several calls are in flight together when
  its caller issues them from several threads. What the calls could share is made explicit:
  the list objects of the process (a store of addresses) and the thread pools. Each call
  creates a pool of its own with \<^verbatim>\<open>max_workers=1\<close> and submits its one job to it (lines 171
  and 172); a worker of that pool takes the job when the pool has a free worker, and the
  job starts by allocating its list \<open>search_results\<close> (line 107); every tool call of the
  nested run is one step (lines 120 to 122); when the nested run ends the job reads its
  list, the future is resolved, the worker is free again and the caller prints its last
  line (line 175).
\<close>

record pool =
  max_workers :: nat
  busy :: nat

datatype phase =
    Submitted nat string
  | Running nat string nat executor
  | Resolved nat string "pyexc + research_outcome"

fun pool_of :: "phase \<Rightarrow> nat" where
  "pool_of (Submitted p query) = p"
| "pool_of (Running p query a ex) = p"
| "pool_of (Resolved p query r) = p"

fun query_of :: "phase \<Rightarrow> string" where
  "query_of (Submitted p query) = query"
| "query_of (Running p query a ex) = query"
| "query_of (Resolved p query r) = query"

fun is_running :: "phase \<Rightarrow> bool" where
  "is_running (Running p query a ex) = True"
| "is_running _ = False"

record system =
  store :: "nat \<rightharpoonup> pydict list"
  next_addr :: nat
  pools :: "nat \<rightharpoonup> pool"
  next_pool :: nat
  calls :: "nat \<rightharpoonup> phase"

definition initial :: system where
  "initial = \<lparr>store = Map.empty, next_addr = 0, pools = Map.empty, next_pool = 0,
              calls = Map.empty\<rparr>"

text \<open>An event: the caller issues call \<open>i\<close> with a query, or call \<open>i\<close> takes its next step.\<close>

datatype event = Issue nat string | Advance nat

text \<open>
  A call is in flight from the moment it has created its pool and submitted its job (lines
  171 and 172). A call whose first line cannot be printed (line 96) or whose imports fail
  (lines 98 and 99) ends before that, with no pool and no list, and never is in flight.
\<close>

definition issue :: "host \<Rightarrow> system \<Rightarrow> nat \<Rightarrow> string \<Rightarrow> system" where
  "issue h s i query =
     (case calls s i of
        Some ph \<Rightarrow> s
      | None \<Rightarrow>
          if stdout h (research_started query) = None \<and> modules h = None then
            s\<lparr>pools := (pools s)(next_pool s \<mapsto> \<lparr>max_workers = 1, busy = 0\<rparr>),
              next_pool := Suc (next_pool s),
              calls := (calls s)(i \<mapsto> Submitted (next_pool s) query)\<rparr>
          else s)"

definition release :: "system \<Rightarrow> nat \<Rightarrow> nat \<rightharpoonup> pool" where
  "release s p =
     (case pools s p of
        None \<Rightarrow> pools s
      | Some pl \<Rightarrow> (pools s)(p \<mapsto> pl\<lparr>busy := busy pl - 1\<rparr>))"

definition advance ::
  "host \<Rightarrow> (string \<Rightarrow> executor) \<Rightarrow> system \<Rightarrow> nat \<Rightarrow> system" where
  "advance h agent s i =
     (case calls s i of
        None \<Rightarrow> s
      | Some (Submitted p query) \<Rightarrow>
          (case pools s p of
             None \<Rightarrow> s
           | Some pl \<Rightarrow>
               if busy pl < max_workers pl then
                 s\<lparr>pools := (pools s)(p \<mapsto> pl\<lparr>busy := Suc (busy pl)\<rparr>),
                   store := (store s)(next_addr s \<mapsto> []),
                   next_addr := Suc (next_addr s),
                   calls := (calls s)(i \<mapsto> Running p query (next_addr s) (agent query))\<rparr>
               else s)
      | Some (Running p query a ex) \<Rightarrow>
          (case store s a of
             None \<Rightarrow> s
           | Some search_results \<Rightarrow>
               (case ex of
                  Search q n k \<Rightarrow>
                    (case internet_search_tracked h search_results q n of
                       (search_results', r) \<Rightarrow>
                         s\<lparr>store := (store s)(a \<mapsto> search_results'),
                           calls := (calls s)(i \<mapsto> Running p query a (k r))\<rparr>)
                | Return messages \<Rightarrow>
                    s\<lparr>pools := release s p,
                      calls := (calls s)(i \<mapsto>
                        Resolved p query (conclude h (assemble search_results messages)))\<rparr>
                | Raise e \<Rightarrow>
                    s\<lparr>pools := release s p,
                      calls := (calls s)(i \<mapsto> Resolved p query (Inl e))\<rparr>))
      | Some (Resolved p query r) \<Rightarrow> s)"

fun step ::
  "host \<Rightarrow> (string \<Rightarrow> executor) \<Rightarrow> system \<Rightarrow> event \<Rightarrow> system" where
  "step h agent s (Issue i query) = issue h s i query"
| "step h agent s (Advance i) = advance h agent s i"

definition run_schedule ::
  "host \<Rightarrow> (string \<Rightarrow> executor) \<Rightarrow> event list \<Rightarrow> system" where
  "run_schedule h agent evs = foldl (step h agent) initial evs"

text \<open>What holds of the lists in every state: an address in use was handed out; the list of a
  running call, continued by the rest of its nested run, gives what the call gives when it
  runs alone from an empty list; no two running calls hold the same address; a resolved
  call holds the outcome of \<open>research\<close> on its own query; the first line of every call in
  flight was printed and its imports succeeded.\<close>

definition traces_apart ::
  "host \<Rightarrow> (string \<Rightarrow> executor) \<Rightarrow> system \<Rightarrow> bool" where
  "traces_apart h agent s =
     ((\<forall>a tr. store s a = Some tr \<longrightarrow> a < next_addr s) \<and>
      (\<forall>i p q a ex. calls s i = Some (Running p q a ex) \<longrightarrow>
         (\<exists>tr. store s a = Some tr \<and>
            run_executor h ex tr = run_executor h (agent q) [])) \<and>
      (\<forall>i j p q a ex p' q' ex'.
         calls s i = Some (Running p q a ex) \<longrightarrow> calls s j = Some (Running p' q' a ex') \<longrightarrow> i = j) \<and>
      (\<forall>i p q r. calls s i = Some (Resolved p q r) \<longrightarrow> r = research h agent q) \<and>
      (\<forall>i ph. calls s i = Some ph \<longrightarrow>
         stdout h (research_started (query_of ph)) = None \<and> modules h = None))"

text \<open>What holds of the pools in every state: a pool in use was handed out; the pool of a call
  has one worker, busy exactly while the call runs; no two calls have the same pool.\<close>

definition pools_apart :: "system \<Rightarrow> bool" where
  "pools_apart s =
     ((\<forall>p pl. pools s p = Some pl \<longrightarrow> p < next_pool s) \<and>
      (\<forall>i ph. calls s i = Some ph \<longrightarrow>
         pools s (pool_of ph) = Some \<lparr>max_workers = 1, busy = (if is_running ph then 1 else 0)\<rparr>) \<and>
      (\<forall>i j ph ph'. calls s i = Some ph \<longrightarrow> calls s j = Some ph' \<longrightarrow>
         pool_of ph = pool_of ph' \<longrightarrow> i = j))"

text \<open>The lists the tracked search handed to the nested agent during a run, in order: what
  the agent saw of its tool.\<close>

primrec returned_lists :: "host \<Rightarrow> executor \<Rightarrow> pydict list list" where
  "returned_lists h (Return messages) = []"
| "returned_lists h (Raise e) = []"
| "returned_lists h (Search query max_results k) =
     (case do_internet_search h query (case max_results of None \<Rightarrow> 5 | Some n \<Rightarrow> n) of
        Inl e \<Rightarrow> returned_lists h (k (Inl e))
      | Inr results \<Rightarrow> results # returned_lists h (k (Inr results)))"

section \<open>Concrete inputs\<close>

definition env_with_key :: "string \<rightharpoonup> string" where
  "env_with_key = [''TAVILY_API_KEY'' \<mapsto> ''tvly-demo'']"


text \<open>A host whose \<^verbatim>\<open>stdout\<close> takes every line and whose imports succeed.\<close>

definition quiet_host :: "(string \<rightharpoonup> string) \<Rightarrow> provider \<Rightarrow> host" where
  "quiet_host env client =
     \<lparr>stdout = (\<lambda>text. None), modules = None, environ = env, tavily = client\<rparr>"

text \<open>A provider that answers the same value to every request, and one that always raises.\<close>

definition answering :: "pyval \<Rightarrow> provider" where
  "answering response = (\<lambda>tavily_key query max_results. Inr response)"

definition failing :: "pyexc \<Rightarrow> provider" where
  "failing e = (\<lambda>tavily_key query max_results. Inl e)"

text \<open>An answer listing two records: a complete one, and one without \<^verbatim>\<open>url\<close> whose content
  is \<^verbatim>\<open>None\<close>.\<close>

definition two_hits :: pyval where
  "two_hits =
     PDict [(''results'',
       PList [PDict [(''url'', PStr ''https://a.example''), (''title'', PStr ''A''),
                     (''content'', PStr ''alpha'')],
              PDict [(''title'', PStr ''B''), (''content'', PNone)]])]"

text \<open>An answer whose only record has \<^verbatim>\<open>None\<close> as its \<^verbatim>\<open>url\<close>.\<close>

definition null_url_hit :: pyval where
  "null_url_hit = PDict [(''results'', PList [PDict [(''url'', PNone), (''title'', PStr ''T'')]])]"

text \<open>A text of 3001 characters, and an answer whose only record has as its content a list
  holding that text.\<close>

definition long_text :: string where
  "long_text = replicate 3001 (CHR ''x'')"

definition list_content_hit :: pyval where
  "list_content_hit =
     PDict [(''results'',
       PList [PDict [(''url'', PStr ''https://a.example''),
                     (''content'', PList [PStr long_text])]])]"

text \<open>A provider whose answer lists one record, with the query as its \<^verbatim>\<open>url\<close>; and one
  that does so except for the query \<^verbatim>\<open>down\<close>, on which it raises.\<close>

definition echoing :: provider where
  "echoing = (\<lambda>tavily_key query max_results.
     Inr (PDict [(''results'', PList [PDict [(''url'', PStr query)]])]))"

definition flaky :: provider where
  "flaky = (\<lambda>tavily_key query max_results.
     if query = ''down'' then Inl (PyExc ''ConnectionError'' ''timed out'')
     else Inr (PDict [(''results'', PList [PDict [(''url'', PStr query)]])]))"

text \<open>A nested agent that follows its prompt: one search, then a summary. One that searches
  for \<^verbatim>\<open>down\<close> first and then for its query. And one that fails.\<close>

definition search_once :: "string \<Rightarrow> executor" where
  "search_once query = Search query None (\<lambda>r. Return [PStr query, PStr ''summary''])"

definition search_twice :: "string \<Rightarrow> executor" where
  "search_twice query =
     Search ''down'' None (\<lambda>r. Search query None (\<lambda>r'. Return [PStr ''summary'']))"

definition crashing :: "string \<Rightarrow> executor" where
  "crashing query = Raise (PyExc ''ValueError'' ''boom'')"

section \<open>Calls in flight together: what every schedule preserves\<close>

subsection \<open>The lists\<close>

lemma traces_apartI:
  assumes "\<And>a tr. store s a = Some tr \<Longrightarrow> a < next_addr s"
    and "\<And>i p q a ex. calls s i = Some (Running p q a ex) \<Longrightarrow>
           \<exists>tr. store s a = Some tr \<and>
             run_executor h ex tr = run_executor h (agent q) []"
    and "\<And>i j p q a ex p' q' ex'. calls s i = Some (Running p q a ex) \<Longrightarrow>
           calls s j = Some (Running p' q' a ex') \<Longrightarrow> i = j"
    and "\<And>i p q r. calls s i = Some (Resolved p q r) \<Longrightarrow> r = research h agent q"
    and "\<And>i ph. calls s i = Some ph \<Longrightarrow>
           stdout h (research_started (query_of ph)) = None \<and> modules h = None"
  shows "traces_apart h agent s"
  unfolding traces_apart_def
  apply (intro conjI allI impI)
       apply (erule assms(1))
      apply (erule assms(2))
     apply (erule (1) assms(3))
    apply (erule assms(4))
   apply (erule assms(5) [THEN conjunct1])
  apply (erule assms(5) [THEN conjunct2])
  done

lemma traces_apart_bound:
  assumes "traces_apart h agent s" and "store s a = Some tr"
  shows "a < next_addr s"
proof -
  from assms(1) have "\<forall>a tr. store s a = Some tr \<longrightarrow> a < next_addr s"
    unfolding traces_apart_def by (rule conjunct1)
  with assms(2) show ?thesis by blast
qed

lemma traces_apart_running:
  assumes "traces_apart h agent s" and "calls s i = Some (Running p q a ex)"
  shows "\<exists>tr. store s a = Some tr \<and>
       run_executor h ex tr = run_executor h (agent q) []"
proof -
  from assms(1) have "\<forall>i p q a ex. calls s i = Some (Running p q a ex) \<longrightarrow>
         (\<exists>tr. store s a = Some tr \<and>
            run_executor h ex tr = run_executor h (agent q) [])"
    unfolding traces_apart_def by (rule conjunct2 [THEN conjunct1])
  with assms(2) show ?thesis by blast
qed

lemma traces_apart_distinct:
  assumes "traces_apart h agent s" and "calls s i = Some (Running p q a ex)"
    and "calls s j = Some (Running p' q' a ex')"
  shows "i = j"
proof -
  from assms(1) have "\<forall>i j p q a ex p' q' ex'.
         calls s i = Some (Running p q a ex) \<longrightarrow> calls s j = Some (Running p' q' a ex') \<longrightarrow> i = j"
    unfolding traces_apart_def by (rule conjunct2 [THEN conjunct2, THEN conjunct1])
  with assms(2,3) show ?thesis by blast
qed

lemma traces_apart_resolved:
  assumes "traces_apart h agent s" and "calls s i = Some (Resolved p q r)"
  shows "r = research h agent q"
proof -
  from assms(1) have "\<forall>i p q r. calls s i = Some (Resolved p q r) \<longrightarrow> r = research h agent q"
    unfolding traces_apart_def
    by (rule conjunct2 [THEN conjunct2, THEN conjunct2, THEN conjunct1])
  with assms(2) show ?thesis by blast
qed

lemma traces_apart_started:
  assumes "traces_apart h agent s" and "calls s i = Some ph"
  shows "stdout h (research_started (query_of ph)) = None \<and> modules h = None"
proof -
  from assms(1) have "\<forall>i ph. calls s i = Some ph \<longrightarrow>
         stdout h (research_started (query_of ph)) = None \<and> modules h = None"
    unfolding traces_apart_def
    by (rule conjunct2 [THEN conjunct2, THEN conjunct2, THEN conjunct2])
  with assms(2) show ?thesis by blast
qed

lemma research_unfold:
  assumes "stdout h (research_started q) = None" and "modules h = None"
  shows "research h agent q =
     conclude h
       (case run_executor h (agent q) [] of
          (captured, Inl e) \<Rightarrow> Inl e
        | (captured, Inr messages) \<Rightarrow> assemble captured messages)"
  using assms
  by (simp add: research_def submit_def run_research_isolated_def run_research_from_def)

lemma traces_apart_initial: "traces_apart h agent initial"
  by (simp add: traces_apart_def initial_def)

lemma started_after:
  assumes inv: "traces_apart h agent s"
    and cur: "calls s i = Some old"
    and ca: "calls s' = (calls s)(i \<mapsto> new)"
    and q: "query_of new = query_of old"
    and at: "calls s' j = Some ph"
  shows "stdout h (research_started (query_of ph)) = None \<and> modules h = None"
proof (cases "j = i")
  case True
  with at ca have "ph = new" by simp
  with q traces_apart_started [OF inv cur] show ?thesis by simp
next
  case False
  with at ca have "calls s j = Some ph" by simp
  then show ?thesis by (rule traces_apart_started [OF inv])
qed

lemma traces_apart_issue:
  assumes inv: "traces_apart h agent s"
  shows "traces_apart h agent (issue h s i query)"
proof (cases "calls s i = None \<and> stdout h (research_started query) = None \<and> modules h = None")
  case False
  then have "issue h s i query = s"
    by (auto simp: issue_def split: option.splits)
  with inv show ?thesis by simp
next
  case True
  define s' where "s' = issue h s i query"
  from True have st: "store s' = store s" and na: "next_addr s' = next_addr s"
    and ca: "calls s' = (calls s)(i \<mapsto> Submitted (next_pool s) query)"
    by (simp_all add: s'_def issue_def)
  have "traces_apart h agent s'"
  proof (rule traces_apartI)
    fix a tr assume "store s' a = Some tr"
    with inv show "a < next_addr s'" by (simp add: st na traces_apart_bound)
  next
    fix j p q a ex assume "calls s' j = Some (Running p q a ex)"
    then have "calls s j = Some (Running p q a ex)" by (simp add: ca split: if_splits)
    from traces_apart_running [OF inv this]
    show "\<exists>tr. store s' a = Some tr \<and>
        run_executor h ex tr = run_executor h (agent q) []"
      by (simp add: st)
  next
    fix j k p q a ex p' q' ex'
    assume "calls s' j = Some (Running p q a ex)" "calls s' k = Some (Running p' q' a ex')"
    then have "calls s j = Some (Running p q a ex)" "calls s k = Some (Running p' q' a ex')"
      by (simp_all add: ca split: if_splits)
    then show "j = k" by (rule traces_apart_distinct [OF inv])
  next
    fix j p q r assume "calls s' j = Some (Resolved p q r)"
    then have "calls s j = Some (Resolved p q r)" by (simp add: ca split: if_splits)
    then show "r = research h agent q" by (rule traces_apart_resolved [OF inv])
  next
    fix j ph assume at: "calls s' j = Some ph"
    show "stdout h (research_started (query_of ph)) = None \<and> modules h = None"
    proof (cases "j = i")
      case True
      with at ca have "ph = Submitted (next_pool s) query" by simp
      with \<open>calls s i = None \<and> stdout h (research_started query) = None \<and> modules h = None\<close>
      show ?thesis by simp
    next
      case False
      with at ca have "calls s j = Some ph" by simp
      then show ?thesis by (rule traces_apart_started [OF inv])
    qed
  qed
  then show ?thesis by (simp add: s'_def)
qed

lemma traces_apart_start:
  assumes inv: "traces_apart h agent s"
    and cur: "calls s i = Some (Submitted p query)"
    and st: "store s' = (store s)(next_addr s \<mapsto> [])"
    and na: "next_addr s' = Suc (next_addr s)"
    and ca: "calls s' = (calls s)(i \<mapsto> Running p query (next_addr s) (agent query))"
  shows "traces_apart h agent s'"
proof (rule traces_apartI)
  fix a tr assume "store s' a = Some tr"
  then show "a < next_addr s'"
    using traces_apart_bound [OF inv, of a] by (auto simp: st na split: if_splits)
next
  fix j p' q a ex assume run: "calls s' j = Some (Running p' q a ex)"
  show "\<exists>tr. store s' a = Some tr \<and>
      run_executor h ex tr = run_executor h (agent q) []"
  proof (cases "j = i")
    case True
    with run show ?thesis by (auto simp: ca st)
  next
    case False
    with run have old: "calls s j = Some (Running p' q a ex)" by (simp add: ca)
    from traces_apart_running [OF inv old] obtain tr where tr: "store s a = Some tr"
      and eq: "run_executor h ex tr = run_executor h (agent q) []" by blast
    from traces_apart_bound [OF inv tr] have "a \<noteq> next_addr s" by simp
    with tr eq show ?thesis by (simp add: st)
  qed
next
  fix j k p1 q1 a ex1 p2 q2 ex2
  assume j: "calls s' j = Some (Running p1 q1 a ex1)"
    and k: "calls s' k = Some (Running p2 q2 a ex2)"
  have fresh: "\<And>m p3 q3 ex3. calls s m \<noteq> Some (Running p3 q3 (next_addr s) ex3)"
  proof
    fix m p3 q3 ex3 assume "calls s m = Some (Running p3 q3 (next_addr s) ex3)"
    from traces_apart_running [OF inv this] obtain tr where "store s (next_addr s) = Some tr"
      by blast
    from traces_apart_bound [OF inv this] show False by simp
  qed
  show "j = k"
  proof (cases "j = i")
    case True
    with j have a: "a = next_addr s" by (simp add: ca)
    show ?thesis
    proof (cases "k = i")
      case True
      with \<open>j = i\<close> show ?thesis by simp
    next
      case False
      with k have "calls s k = Some (Running p2 q2 a ex2)" by (simp add: ca)
      with fresh a show ?thesis by simp
    qed
  next
    case False
    with j have oj: "calls s j = Some (Running p1 q1 a ex1)" by (simp add: ca)
    show ?thesis
    proof (cases "k = i")
      case True
      with k have "a = next_addr s" by (simp add: ca)
      with oj fresh show ?thesis by simp
    next
      case False
      with k have "calls s k = Some (Running p2 q2 a ex2)" by (simp add: ca)
      with oj show ?thesis by (rule traces_apart_distinct [OF inv])
    qed
  qed
next
  fix j p' q r assume "calls s' j = Some (Resolved p' q r)"
  then have "calls s j = Some (Resolved p' q r)" by (simp add: ca split: if_splits)
  then show "r = research h agent q" by (rule traces_apart_resolved [OF inv])
next
  fix j ph assume at: "calls s' j = Some ph"
  show "stdout h (research_started (query_of ph)) = None \<and> modules h = None"
    by (rule started_after [OF inv cur ca _ at]) simp
qed

lemma traces_apart_resolve:
  assumes inv: "traces_apart h agent s"
    and cur: "calls s i = Some (Running p query a ex)"
    and res: "\<And>tr. store s a = Some tr \<Longrightarrow>
        run_executor h ex tr = run_executor h (agent query) [] \<Longrightarrow>
        r = research h agent query"
    and st: "store s' = store s"
    and na: "next_addr s' = next_addr s"
    and ca: "calls s' = (calls s)(i \<mapsto> Resolved p query r)"
  shows "traces_apart h agent s'"
proof (rule traces_apartI)
  fix b tr assume "store s' b = Some tr"
  with inv show "b < next_addr s'" by (simp add: st na traces_apart_bound)
next
  fix j p' q b ex' assume "calls s' j = Some (Running p' q b ex')"
  then have "calls s j = Some (Running p' q b ex')" by (simp add: ca split: if_splits)
  from traces_apart_running [OF inv this]
  show "\<exists>tr. store s' b = Some tr \<and>
      run_executor h ex' tr = run_executor h (agent q) []"
    by (simp add: st)
next
  fix j k p1 q1 b ex1 p2 q2 ex2
  assume "calls s' j = Some (Running p1 q1 b ex1)" "calls s' k = Some (Running p2 q2 b ex2)"
  then have "calls s j = Some (Running p1 q1 b ex1)" "calls s k = Some (Running p2 q2 b ex2)"
    by (simp_all add: ca split: if_splits)
  then show "j = k" by (rule traces_apart_distinct [OF inv])
next
  fix j p' q r' assume new: "calls s' j = Some (Resolved p' q r')"
  show "r' = research h agent q"
  proof (cases "j = i")
    case True
    with new have eq: "q = query" "r' = r" by (simp_all add: ca)
    from traces_apart_running [OF inv cur] obtain tr where "store s a = Some tr"
      and "run_executor h ex tr = run_executor h (agent query) []" by blast
    then have "r = research h agent query" by (rule res)
    with eq show ?thesis by simp
  next
    case False
    with new have "calls s j = Some (Resolved p' q r')" by (simp add: ca)
    then show ?thesis by (rule traces_apart_resolved [OF inv])
  qed
next
  fix j ph assume at: "calls s' j = Some ph"
  show "stdout h (research_started (query_of ph)) = None \<and> modules h = None"
    by (rule started_after [OF inv cur ca _ at]) simp
qed

lemma traces_apart_search:
  assumes inv: "traces_apart h agent s"
    and cur: "calls s i = Some (Running p query a (Search q n k))"
    and tr: "store s a = Some tr"
    and t: "internet_search_tracked h tr q n = (tr', r)"
    and st: "store s' = (store s)(a \<mapsto> tr')"
    and na: "next_addr s' = next_addr s"
    and ca: "calls s' = (calls s)(i \<mapsto> Running p query a (k r))"
  shows "traces_apart h agent s'"
proof (rule traces_apartI)
  fix b tr0 assume "store s' b = Some tr0"
  then show "b < next_addr s'"
    using traces_apart_bound [OF inv, of b] traces_apart_bound [OF inv tr]
    by (auto simp: st na split: if_splits)
next
  fix j p' q' b ex' assume run: "calls s' j = Some (Running p' q' b ex')"
  show "\<exists>tr. store s' b = Some tr \<and>
      run_executor h ex' tr = run_executor h (agent q') []"
  proof (cases "j = i")
    case True
    with run have eq: "q' = query" "b = a" "ex' = k r" by (simp_all add: ca)
    from traces_apart_running [OF inv cur] tr
    have "run_executor h (Search q n k) tr = run_executor h (agent query) []"
      by simp
    with t have "run_executor h (k r) tr' = run_executor h (agent query) []"
      by simp
    with eq show ?thesis by (simp add: st)
  next
    case False
    with run have old: "calls s j = Some (Running p' q' b ex')" by (simp add: ca)
    from traces_apart_distinct [OF inv old] cur False have "b \<noteq> a" by blast
    with traces_apart_running [OF inv old] show ?thesis by (simp add: st)
  qed
next
  fix j m p1 q1 b ex1 p2 q2 ex2
  assume j: "calls s' j = Some (Running p1 q1 b ex1)"
    and m: "calls s' m = Some (Running p2 q2 b ex2)"
  have old: "\<And>x p3 q3 ex3. calls s' x = Some (Running p3 q3 b ex3) \<Longrightarrow>
      \<exists>ex4. calls s x = Some (Running p3 q3 b ex4)"
    using cur by (auto simp: ca split: if_splits)
  from old [OF j] old [OF m] show "j = m" by (blast dest: traces_apart_distinct [OF inv])
next
  fix j p' q' r' assume "calls s' j = Some (Resolved p' q' r')"
  then have "calls s j = Some (Resolved p' q' r')" by (simp add: ca split: if_splits)
  then show "r' = research h agent q'" by (rule traces_apart_resolved [OF inv])
next
  fix j ph assume at: "calls s' j = Some ph"
  show "stdout h (research_started (query_of ph)) = None \<and> modules h = None"
    by (rule started_after [OF inv cur ca _ at]) simp
qed

lemma traces_apart_advance:
  assumes inv: "traces_apart h agent s"
  shows "traces_apart h agent (advance h agent s i)"
proof (cases "calls s i")
  case None
  with inv show ?thesis by (simp add: advance_def)
next
  case (Some ph)
  show ?thesis
  proof (cases ph)
    case (Submitted p query)
    with Some have cur: "calls s i = Some (Submitted p query)" by simp
    show ?thesis
    proof (cases "pools s p")
      case None
      with cur inv show ?thesis by (simp add: advance_def)
    next
      case pl: (Some pl)
      show ?thesis
      proof (cases "busy pl < max_workers pl")
        case False
        with cur pl inv show ?thesis by (simp add: advance_def)
      next
        case True
        show ?thesis
          by (rule traces_apart_start [OF inv cur])
            (simp_all add: advance_def cur pl True)
      qed
    qed
  next
    case (Resolved p query r)
    with Some inv show ?thesis by (simp add: advance_def)
  next
    case (Running p query a ex)
    with Some have cur: "calls s i = Some (Running p query a ex)" by simp
    from traces_apart_running [OF inv cur] obtain tr where tr: "store s a = Some tr" by blast
    from traces_apart_started [OF inv cur]
    have started: "stdout h (research_started query) = None" "modules h = None" by simp_all
    show ?thesis
    proof (cases ex)
      case (Return messages)
      show ?thesis
      proof (rule traces_apart_resolve [OF inv cur, where r = "conclude h (assemble tr messages)"])
        fix tr0 assume "store s a = Some tr0"
          and "run_executor h ex tr0 = run_executor h (agent query) []"
        with tr Return have "run_executor h (agent query) [] = (tr, Inr messages)"
          by simp
        then show "conclude h (assemble tr messages) = research h agent query"
          by (simp add: research_unfold [OF started])
      qed (simp_all add: advance_def cur tr Return)
    next
      case (Raise e)
      show ?thesis
      proof (rule traces_apart_resolve [OF inv cur, where r = "Inl e"])
        fix tr0 assume "store s a = Some tr0"
          and "run_executor h ex tr0 = run_executor h (agent query) []"
        with tr Raise have "run_executor h (agent query) [] = (tr, Inl e)"
          by simp
        then show "Inl e = research h agent query"
          by (simp add: research_unfold [OF started] conclude_def)
      qed (simp_all add: advance_def cur tr Raise)
    next
      case (Search q n k)
      obtain tr' r where t: "internet_search_tracked h tr q n = (tr', r)"
        by (cases "internet_search_tracked h tr q n")
      from cur Search have cur': "calls s i = Some (Running p query a (Search q n k))" by simp
      show ?thesis
        by (rule traces_apart_search [OF inv cur' tr t])
          (simp_all add: advance_def cur' tr t)
    qed
  qed
qed

lemma traces_apart_step:
  "traces_apart h agent s \<Longrightarrow> traces_apart h agent (step h agent s ev)"
  by (cases ev) (simp_all add: traces_apart_issue traces_apart_advance)

lemma traces_apart_foldl:
  "traces_apart h agent s \<Longrightarrow>
     traces_apart h agent (foldl (step h agent) s evs)"
  by (induction evs arbitrary: s) (simp_all add: traces_apart_step)

lemma traces_apart_run_schedule:
  "traces_apart h agent (run_schedule h agent evs)"
  unfolding run_schedule_def by (rule traces_apart_foldl [OF traces_apart_initial])

subsection \<open>The pools\<close>


lemma pools_apartI:
  assumes "\<And>p pl. pools s p = Some pl \<Longrightarrow> p < next_pool s"
    and "\<And>i ph. calls s i = Some ph \<Longrightarrow>
           pools s (pool_of ph) = Some \<lparr>max_workers = 1, busy = (if is_running ph then 1 else 0)\<rparr>"
    and "\<And>i j ph ph'. calls s i = Some ph \<Longrightarrow> calls s j = Some ph' \<Longrightarrow>
           pool_of ph = pool_of ph' \<Longrightarrow> i = j"
  shows "pools_apart s"
  unfolding pools_apart_def
  apply (intro conjI allI impI)
    apply (erule assms(1))
   apply (erule assms(2))
  apply (erule (2) assms(3))
  done

lemma pools_apart_bound:
  "pools_apart s \<Longrightarrow> pools s p = Some pl \<Longrightarrow> p < next_pool s"
  unfolding pools_apart_def by blast

lemma pools_apart_pool:
  "pools_apart s \<Longrightarrow> calls s i = Some ph \<Longrightarrow>
     pools s (pool_of ph) = Some \<lparr>max_workers = 1, busy = (if is_running ph then 1 else 0)\<rparr>"
  unfolding pools_apart_def by blast

lemma pools_apart_distinct:
  "pools_apart s \<Longrightarrow> calls s i = Some ph \<Longrightarrow> calls s j = Some ph' \<Longrightarrow>
     pool_of ph = pool_of ph' \<Longrightarrow> i = j"
  unfolding pools_apart_def by blast

lemma pools_apart_initial: "pools_apart initial"
  by (simp add: pools_apart_def initial_def)

lemma pools_apart_issue:
  assumes inv: "pools_apart s"
  shows "pools_apart (issue h s i query)"
proof (cases "calls s i = None \<and> stdout h (research_started query) = None \<and> modules h = None")
  case False
  then have "issue h s i query = s"
    by (auto simp: issue_def split: option.splits)
  with inv show ?thesis by simp
next
  case True
  define s' where "s' = issue h s i query"
  from True have po: "pools s' = (pools s)(next_pool s \<mapsto> \<lparr>max_workers = 1, busy = 0\<rparr>)"
    and np: "next_pool s' = Suc (next_pool s)"
    and ca: "calls s' = (calls s)(i \<mapsto> Submitted (next_pool s) query)"
    by (simp_all add: s'_def issue_def)
  have old: "\<And>j ph. calls s j = Some ph \<Longrightarrow> pool_of ph \<noteq> next_pool s"
  proof
    fix j ph assume "calls s j = Some ph" "pool_of ph = next_pool s"
    with pools_apart_pool [OF inv, of j ph] pools_apart_bound [OF inv, of "next_pool s"]
    show False by simp
  qed
  have "pools_apart s'"
  proof (rule pools_apartI)
    fix p pl assume "pools s' p = Some pl"
    then show "p < next_pool s'"
      using pools_apart_bound [OF inv, of p] by (auto simp: po np split: if_splits)
  next
    fix j ph assume new: "calls s' j = Some ph"
    show "pools s' (pool_of ph) = Some \<lparr>max_workers = 1, busy = (if is_running ph then 1 else 0)\<rparr>"
    proof (cases "j = i")
      case True
      with new show ?thesis by (auto simp: ca po)
    next
      case False
      with new have o: "calls s j = Some ph" by (simp add: ca)
      with old [OF o] pools_apart_pool [OF inv o] show ?thesis by (simp add: po)
    qed
  next
    fix j k ph ph'
    assume j: "calls s' j = Some ph" and k: "calls s' k = Some ph'"
      and eq: "pool_of ph = pool_of ph'"
    show "j = k"
    proof (cases "j = i")
      case True
      with j have pj: "pool_of ph = next_pool s" by (auto simp: ca)
      show ?thesis
      proof (cases "k = i")
        case True
        with \<open>j = i\<close> show ?thesis by simp
      next
        case False
        with k have "calls s k = Some ph'" by (simp add: ca)
        from old [OF this] pj eq show ?thesis by simp
      qed
    next
      case False
      with j have oj: "calls s j = Some ph" by (simp add: ca)
      show ?thesis
      proof (cases "k = i")
        case True
        with k have "pool_of ph' = next_pool s" by (auto simp: ca)
        with old [OF oj] eq show ?thesis by simp
      next
        case False
        with k have "calls s k = Some ph'" by (simp add: ca)
        with oj eq show ?thesis by (blast intro: pools_apart_distinct [OF inv])
      qed
    qed
  qed
  then show ?thesis by (simp add: s'_def)
qed

lemma pools_apart_move:
  assumes inv: "pools_apart s"
    and cur: "calls s i = Some ph"
    and same: "pool_of ph' = pool_of ph"
    and po: "pools s' = (pools s)(pool_of ph \<mapsto>
        \<lparr>max_workers = 1, busy = (if is_running ph' then 1 else 0)\<rparr>)"
    and np: "next_pool s' = next_pool s"
    and ca: "calls s' = (calls s)(i \<mapsto> ph')"
  shows "pools_apart s'"
proof (rule pools_apartI)
  fix p pl assume "pools s' p = Some pl"
  then show "p < next_pool s'"
    using pools_apart_bound [OF inv, of p] pools_apart_pool [OF inv cur]
    by (auto simp: po np split: if_splits)
next
  fix j x assume new: "calls s' j = Some x"
  show "pools s' (pool_of x) = Some \<lparr>max_workers = 1, busy = (if is_running x then 1 else 0)\<rparr>"
  proof (cases "j = i")
    case True
    with new have "x = ph'" by (simp add: ca)
    then show ?thesis by (simp add: po same)
  next
    case False
    with new have o: "calls s j = Some x" by (simp add: ca)
    from pools_apart_distinct [OF inv o cur] False have "pool_of x \<noteq> pool_of ph" by blast
    with pools_apart_pool [OF inv o] show ?thesis by (simp add: po)
  qed
next
  fix j k x y
  assume j: "calls s' j = Some x" and k: "calls s' k = Some y" and eq: "pool_of x = pool_of y"
  have old: "\<And>m z. calls s' m = Some z \<Longrightarrow> \<exists>w. calls s m = Some w \<and> pool_of w = pool_of z"
    using cur same by (auto simp: ca split: if_splits)
  from old [OF j] old [OF k] eq show "j = k"
    by (metis pools_apart_distinct [OF inv])
qed


lemma pools_apart_advance:
  assumes inv: "pools_apart s"
  shows "pools_apart (advance h agent s i)"
proof (cases "calls s i")
  case None
  with inv show ?thesis by (simp add: advance_def)
next
  case (Some ph)
  note pl = pools_apart_pool [OF inv Some]
  show ?thesis
  proof (cases ph)
    case (Submitted p query)
    show ?thesis
      by (rule pools_apart_move [OF inv Some, where ph' = "Running p query (next_addr s) (agent query)"])
        (use pl in \<open>simp_all add: advance_def Some Submitted\<close>)
  next
    case (Resolved p query r)
    with Some inv show ?thesis by (simp add: advance_def)
  next
    case (Running p query a ex)
    show ?thesis
    proof (cases "store s a")
      case None
      with Some Running inv show ?thesis by (simp add: advance_def)
    next
      case tr: (Some tr)
      show ?thesis
      proof (cases ex)
        case (Return messages)
        show ?thesis
          by (rule pools_apart_move [OF inv Some,
                where ph' = "Resolved p query (conclude h (assemble tr messages))"])
            (use pl in \<open>simp_all add: advance_def release_def Some Running tr Return\<close>)
      next
        case (Raise e)
        show ?thesis
          by (rule pools_apart_move [OF inv Some, where ph' = "Resolved p query (Inl e)"])
            (use pl in \<open>simp_all add: advance_def release_def Some Running tr Raise\<close>)
      next
        case (Search q n k)
        obtain tr' r where t: "internet_search_tracked h tr q n = (tr', r)"
          by (cases "internet_search_tracked h tr q n")
        show ?thesis
          by (rule pools_apart_move [OF inv Some, where ph' = "Running p query a (k r)"])
            (use pl in \<open>simp_all add: advance_def Some Running tr Search t fun_upd_idem\<close>)
      qed
    qed
  qed
qed

lemma pools_apart_step: "pools_apart s \<Longrightarrow> pools_apart (step h agent s ev)"
  by (cases ev) (simp_all add: pools_apart_issue pools_apart_advance)

lemma pools_apart_foldl:
  "pools_apart s \<Longrightarrow> pools_apart (foldl (step h agent) s evs)"
  by (induction evs arbitrary: s) (simp_all add: pools_apart_step)

lemma pools_apart_run_schedule: "pools_apart (run_schedule h agent evs)"
  unfolding run_schedule_def by (rule pools_apart_foldl [OF pools_apart_initial])

lemma submitted_starts:
  assumes inv: "pools_apart s" and sub: "calls s i = Some (Submitted p query)"
  shows "calls (advance h agent s i) i =
           Some (Running p query (next_addr s) (agent query))"
  using pools_apart_pool [OF inv sub] sub by (simp add: advance_def)

section \<open>The query client: returning, failing, bounds\<close>

lemma py_slice_to_cut: "py_slice_to 3000 v = Inr c \<Longrightarrow> cut_content c"
  by (cases v) (auto simp: cut_content_def)






lemma format_result_shape:
  assumes "format_result r = Inr d"
  shows "\<exists>kvs c. r = PDict kvs \<and>
           py_slice_to 3000 (py_or (dict_get kvs ''content'' PNone) (PStr '''')) = Inr c \<and>
           d = [(''url'', dict_get kvs ''url'' (PStr '''')),
                (''title'', dict_get kvs ''title'' (PStr '''')),
                (''content'', c)]"
  using assms by (cases r) (auto simp: format_result_def split: sum.splits)

lemma format_results_acc:
  "format_results rs acc = Inr out \<Longrightarrow>
     \<exists>ds. out = acc @ ds \<and> list_all2 (\<lambda>r d. format_result r = Inr d) rs ds"
proof (induction rs arbitrary: acc)
  case Nil
  then show ?case by simp
next
  case (Cons r rs)
  from Cons.prems obtain d where d: "format_result r = Inr d"
    and rest: "format_results rs (acc @ [d]) = Inr out"
    by (auto split: sum.splits)
  from Cons.IH [OF rest] obtain ds where "out = (acc @ [d]) @ ds"
    and "list_all2 (\<lambda>r d. format_result r = Inr d) rs ds" by blast
  with d show ?case by (intro exI [of _ "d # ds"]) simp
qed

lemma search_body_success:
  assumes "search_body h k q n = Inr out"
  shows "list_all2 (\<lambda>r d. format_result r = Inr d) (provider_entries h k q n) out"
  using assms
  by (auto simp: search_body_def provider_entries_def
      split: sum.splits option.splits dest!: format_results_acc)



lemma do_internet_search_cases:
  assumes "do_internet_search h q n = Inr out"
  shows "\<exists>k. environ h ''TAVILY_API_KEY'' = Some k \<and> k \<noteq> [] \<and>
           (search_body h k q n = Inr out \<or>
            (\<exists>e. search_body h k q n = Inl e \<and> is_Exception e \<and>
               out = [[(''error'', PStr (exc_str e))]]))"
  using assms
  by (auto simp: do_internet_search_def split: option.splits if_splits sum.splits)






lemma long_text_length: "length long_text = 3001"
  by (simp only: long_text_def length_replicate)

lemma formatted_string_content:
  assumes "format_result r = Inr d" and "string_fields r" and "map_of d ''content'' = Some c"
  shows "cut_string c"
proof -
  from format_result_shape [OF assms(1)] obtain kvs c' where r: "r = PDict kvs"
    and c': "py_slice_to 3000 (py_or (dict_get kvs ''content'' PNone) (PStr '''')) = Inr c'"
    and d: "d = [(''url'', dict_get kvs ''url'' (PStr '''')),
                (''title'', dict_get kvs ''title'' (PStr '''')), (''content'', c')]"
    by blast
  from assms(2) r have "is_str (py_or (dict_get kvs ''content'' PNone) (PStr ''''))"
    by (auto simp: string_fields_def dict_get_def is_str_def py_or_def
        split: option.splits pyval.splits)
  then obtain s where "py_or (dict_get kvs ''content'' PNone) (PStr '''') = PStr s"
    by (cases "py_or (dict_get kvs ''content'' PNone) (PStr '''')") (auto simp: is_str_def)
  with c' have "c' = PStr (take 3000 s)" by simp
  with d assms(3) show ?thesis by (auto simp: cut_string_def)
qed

lemma cut_contentD:
  "cut_content c \<Longrightarrow>
     (\<exists>t. c = PStr t \<and> length t \<le> 3000) \<or> (\<exists>xs. c = PList xs \<and> length xs \<le> 3000)"
  by (cases c) (auto simp: cut_content_def)

lemma cut_stringD: "cut_string c \<Longrightarrow> \<exists>t. c = PStr t \<and> length t \<le> 3000"
  by (cases c) (auto simp: cut_string_def)

lemma list_all2_right:
  "list_all2 P xs ys \<Longrightarrow> y \<in> set ys \<Longrightarrow> \<exists>x \<in> set xs. P x y"
  by (induction rule: list_all2_induct) auto




section \<open>The research tool: sources, tracking, failure\<close>

lemma source_record_shape:
  assumes "source_record r = Inr s"
  shows "\<exists>url c. map_of r ''url'' = Some url \<and>
           py_slice_to 3000 (dict_get r ''content'' (PStr '''')) = Inr c \<and>
           s = [(''url'', url), (''title'', dict_get r ''title'' (PStr '''')),
                (''content'', c), (''status'', PStr ''found'')]"
  using assms by (auto simp: source_record_def split: option.splits sum.splits)

lemma collect_sources_filter:
  "collect_sources tr = Inr ss \<Longrightarrow>
     list_all2 (\<lambda>r s. source_record r = Inr s)
       (filter (\<lambda>r. dict_has r ''url'' \<and> \<not> truthy (dict_get r ''error'' PNone)) tr) ss"
proof (induction tr arbitrary: ss)
  case Nil
  then show ?case by simp
next
  case (Cons r tr)
  show ?case
  proof (cases "dict_has r ''url'' \<and> \<not> truthy (dict_get r ''error'' PNone)")
    case True
    with Cons.prems obtain s rest where s: "source_record r = Inr s"
      and rest: "collect_sources tr = Inr rest" and ss: "ss = s # rest"
      by (auto split: sum.splits)
    from Cons.IH [OF rest] s ss True show ?thesis by simp
  next
    case False
    with Cons.prems have "collect_sources tr = Inr ss" by (auto split: if_splits)
    from Cons.IH [OF this] False show ?thesis by auto
  qed
qed

subsection \<open>What a captured list holds\<close>

lemma error_marker_shape: "error_marker d \<Longrightarrow> \<exists>m. d = [(''error'', PStr m)]"
  by (auto simp: error_marker_def split: list.splits prod.splits pyval.splits)

lemma error_marker_intro: "error_marker [(''error'', PStr m)]"
  by (simp add: error_marker_def)

lemma formatted_captured:
  assumes "format_result r = Inr d"
  shows "captured_entry d"
proof -
  from format_result_shape [OF assms] obtain kvs c where
    c: "py_slice_to 3000 (py_or (dict_get kvs ''content'' PNone) (PStr '''')) = Inr c"
    and d: "d = [(''url'', dict_get kvs ''url'' (PStr '''')),
                (''title'', dict_get kvs ''title'' (PStr '''')), (''content'', c)]"
    by blast
  from py_slice_to_cut [OF c] d show ?thesis
    by (simp add: captured_entry_def dict_get_def)
qed

lemma formatted_string_captured:
  assumes "format_result r = Inr d" and "string_fields r"
  shows "captured_string_entry d"
proof -
  from format_result_shape [OF assms(1)] obtain kvs c where
    d: "d = [(''url'', dict_get kvs ''url'' (PStr '''')),
                (''title'', dict_get kvs ''title'' (PStr '''')), (''content'', c)]"
    by blast
  then have "map_of d ''content'' = Some c" by simp
  from formatted_string_content [OF assms this] d show ?thesis
    by (simp add: captured_string_entry_def dict_get_def)
qed

lemma search_output_captured:
  assumes "do_internet_search h q n = Inr out"
  shows "list_all captured_entry out"
proof -
  from do_internet_search_cases [OF assms]
  obtain k where "search_body h k q n = Inr out \<or>
      (\<exists>e. out = [[(''error'', PStr (exc_str e))]])"
    by blast
  then show ?thesis
  proof
    assume "search_body h k q n = Inr out"
    from search_body_success [OF this]
    have "list_all2 (\<lambda>r d. format_result r = Inr d) (provider_entries h k q n) out" .
    then show ?thesis
      by (auto simp: list_all_iff dest!: list_all2_right dest: formatted_captured)
  next
    assume "\<exists>e. out = [[(''error'', PStr (exc_str e))]]"
    then show ?thesis by (auto simp: captured_entry_def error_marker_intro)
  qed
qed

lemma search_output_string_captured:
  assumes "do_internet_search h q n = Inr out" and "string_provider h"
  shows "list_all captured_string_entry out"
proof -
  from do_internet_search_cases [OF assms(1)]
  obtain k where "search_body h k q n = Inr out \<or>
      (\<exists>e. out = [[(''error'', PStr (exc_str e))]])"
    by blast
  then show ?thesis
  proof
    assume "search_body h k q n = Inr out"
    from search_body_success [OF this]
    have all: "list_all2 (\<lambda>r d. format_result r = Inr d) (provider_entries h k q n) out" .
    from assms(2) have typed: "list_all string_fields (provider_entries h k q n)"
      by (simp add: string_provider_def)
    have "captured_string_entry d" if "d \<in> set out" for d
    proof -
      from list_all2_right [OF all that] obtain r
        where "r \<in> set (provider_entries h k q n)" "format_result r = Inr d" by blast
      with typed show ?thesis by (auto simp: list_all_iff intro: formatted_string_captured)
    qed
    then show ?thesis by (simp add: list_all_iff)
  next
    assume "\<exists>e. out = [[(''error'', PStr (exc_str e))]]"
    then show ?thesis by (auto simp: captured_string_entry_def error_marker_intro)
  qed
qed

lemma run_executor_captured:
  "list_all captured_entry tr \<Longrightarrow> list_all captured_entry (fst (run_executor h ex tr))"
proof (induction ex arbitrary: tr)
  case (Return messages)
  then show ?case by simp
next
  case (Raise e)
  then show ?case by simp
next
  case (Search query max_results k)
  show ?case
  proof (cases "do_internet_search h query (case max_results of None \<Rightarrow> 5 | Some n \<Rightarrow> n)")
    case (Inl e)
    with Search.prems show ?thesis
      by (simp add: internet_search_tracked_def Search.IH)
  next
    case (Inr results)
    from search_output_captured [OF Inr] Search.prems
    have "list_all captured_entry (tr @ results)" by simp
    with Inr show ?thesis
      by (simp add: internet_search_tracked_def Search.IH)
  qed
qed

lemma run_executor_string_captured:
  "string_provider h \<Longrightarrow> list_all captured_string_entry tr \<Longrightarrow>
     list_all captured_string_entry (fst (run_executor h ex tr))"
proof (induction ex arbitrary: tr)
  case (Return messages)
  then show ?case by simp
next
  case (Raise e)
  then show ?case by simp
next
  case (Search query max_results k)
  show ?case
  proof (cases "do_internet_search h query (case max_results of None \<Rightarrow> 5 | Some n \<Rightarrow> n)")
    case (Inl e)
    with Search.prems show ?thesis
      by (simp add: internet_search_tracked_def Search.IH)
  next
    case (Inr results)
    from search_output_string_captured [OF Inr Search.prems(1)] Search.prems(2)
    have "list_all captured_string_entry (tr @ results)" by simp
    with Inr Search.prems(1) show ?thesis
      by (simp add: internet_search_tracked_def Search.IH)
  qed
qed

lemma marker_dropped:
  assumes "error_marker r"
  shows "\<not> (dict_has r ''url'' \<and> \<not> truthy (dict_get r ''error'' PNone))"
  using error_marker_shape [OF assms] by (auto simp: dict_has_def)

lemma captured_kept_or_marker:
  assumes "captured_entry r"
  shows "(dict_has r ''url'' \<and> \<not> truthy (dict_get r ''error'' PNone)) \<or>
         (\<exists>m. r = [(''error'', PStr m)])"
proof (cases "error_marker r")
  case True
  then show ?thesis by (blast dest: error_marker_shape)
next
  case False
  with assms have keys: "map fst r = [''url'', ''title'', ''content'']"
    by (simp add: captured_entry_def)
  then obtain u t c where "r = [(''url'', u), (''title'', t), (''content'', c)]"
    by (auto simp: map_eq_Cons_conv)
  then show ?thesis by (simp add: dict_has_def dict_get_def)
qed

lemma captured_source:
  assumes "captured_entry r" and "dict_has r ''url''"
  shows "\<exists>s. source_record r = Inr s"
proof -
  from assms(2) marker_dropped [of r] have "\<not> error_marker r"
    by (auto dest!: error_marker_shape simp: dict_has_def)
  with assms(1) have keys: "map fst r = [''url'', ''title'', ''content'']"
    and cut: "cut_content (dict_get r ''content'' PNone)"
    by (simp_all add: captured_entry_def)
  from keys obtain u t c where r: "r = [(''url'', u), (''title'', t), (''content'', c)]"
    by (auto simp: map_eq_Cons_conv)
  with cut have "cut_content c" by (simp add: dict_get_def)
  then obtain c' where "py_slice_to 3000 c = Inr c'"
    by (cases c) (auto simp: cut_content_def)
  with r show ?thesis by (simp add: source_record_def dict_get_def)
qed

lemma collect_sources_total:
  "list_all captured_entry tr \<Longrightarrow> \<exists>ss. collect_sources tr = Inr ss"
proof (induction tr)
  case Nil
  show ?case by simp
next
  case (Cons r tr)
  then obtain ss where ss: "collect_sources tr = Inr ss" by auto
  show ?case
  proof (cases "dict_has r ''url'' \<and> \<not> truthy (dict_get r ''error'' PNone)")
    case False
    with ss show ?thesis by auto
  next
    case True
    from Cons.prems have "captured_entry r" by simp
    from captured_source [OF this] True obtain s where "source_record r = Inr s" by blast
    with ss True show ?thesis by simp
  qed
qed

lemma captured_trace_captured: "list_all captured_entry (fst (run_executor h ex []))"
  by (rule run_executor_captured) simp

lemma research_success:
  assumes "research h agent q = Inr out"
  shows "\<exists>messages. run_executor h (agent q) [] =
             (captured_trace h agent q, Inr messages) \<and>
           messages \<noteq> [] \<and> summary out = last messages \<and>
           collect_sources (captured_trace h agent q) = Inr (sources out)"
proof -
  from assms have started: "stdout h (research_started q) = None" "modules h = None"
    by (auto simp: research_def split: option.splits)
  obtain tr r where run: "run_executor h (agent q) [] = (tr, r)"
    by (cases "run_executor h (agent q) []")
  from assms run have "conclude h (case r of Inl e \<Rightarrow> Inl e | Inr messages \<Rightarrow> assemble tr messages) =
      Inr out"
    by (simp add: research_unfold [OF started])
  then obtain messages where r: "r = Inr messages" and a: "assemble tr messages = Inr out"
    by (cases r) (auto simp: conclude_def split: sum.splits option.splits)
  from a have "messages \<noteq> []" "summary out = last messages" "collect_sources tr = Inr (sources out)"
    by (auto simp: assemble_def split: if_splits sum.splits)
  with run r show ?thesis by (simp add: captured_trace_def)
qed

lemma sources_from_records:
  assumes "research h agent q = Inr out"
  shows "list_all2 (\<lambda>r s. source_record r = Inr s)
           (filter (\<lambda>r. dict_has r ''url'' \<and> \<not> truthy (dict_get r ''error'' PNone))
              (captured_trace h agent q))
           (sources out)"
  using research_success [OF assms] by (auto intro: collect_sources_filter)

lemma source_of_some_record:
  assumes "research h agent q = Inr out" and "s \<in> set (sources out)"
  shows "\<exists>r \<in> set (captured_trace h agent q). source_record r = Inr s"
proof -
  from sources_from_records [OF assms(1)] assms(2)
  obtain r where "r \<in> set (filter (\<lambda>r. dict_has r ''url'' \<and> \<not> truthy (dict_get r ''error'' PNone))
              (captured_trace h agent q))" "source_record r = Inr s"
    by (blast dest: list_all2_right)
  then show ?thesis by auto
qed

text \<open>
  C4. Whenever the nested run returns (with a last message, the lines of the caller
  printed), \<^verbatim>\<open>research\<close> returns, whatever was captured: its \<^verbatim>\<open>sources\<close> are built, one
  for one and in the order of capture, from exactly those captured results that have a
  \<^verbatim>\<open>url\<close> key and no true \<^verbatim>\<open>error\<close>, each carrying the \<^verbatim>\<open>url\<close> of the result it comes
  from; every captured result that is left out is an error marker; and no entry of
  \<^verbatim>\<open>sources\<close> has an \<^verbatim>\<open>error\<close> key or lacks a \<^verbatim>\<open>url\<close> key.
\<close>

theorem sources_filtered_in_capture_order:
  assumes "stdout h (research_started q) = None" and "modules h = None"
    and "run_executor h (agent q) [] = (trace, Inr messages)" and "messages \<noteq> []"
    and "stdout h (research_completed (length
           (filter (\<lambda>r. dict_has r ''url'' \<and> \<not> truthy (dict_get r ''error'' PNone)) trace))) = None"
  shows "\<exists>out. research h agent q = Inr out \<and> summary out = last messages \<and>
           list_all2 (\<lambda>r s. source_record r = Inr s \<and> map_of s ''url'' = map_of r ''url'')
             (filter (\<lambda>r. dict_has r ''url'' \<and> \<not> truthy (dict_get r ''error'' PNone)) trace)
             (sources out) \<and>
           (\<forall>r \<in> set trace.
              (dict_has r ''url'' \<and> \<not> truthy (dict_get r ''error'' PNone)) \<or>
              (\<exists>m. r = [(''error'', PStr m)])) \<and>
           (\<forall>s \<in> set (sources out). dict_has s ''url'' \<and> \<not> dict_has s ''error'')"
proof -
  from assms(3) have tr: "trace = fst (run_executor h (agent q) [])" by simp
  have cap: "list_all captured_entry trace"
    unfolding tr by (rule captured_trace_captured)
  from collect_sources_total [OF cap] obtain ss where ss: "collect_sources trace = Inr ss"
    by blast
  from collect_sources_filter [OF ss]
  have rel: "list_all2 (\<lambda>r s. source_record r = Inr s)
      (filter (\<lambda>r. dict_has r ''url'' \<and> \<not> truthy (dict_get r ''error'' PNone)) trace) ss" .
  then have len: "length ss =
      length (filter (\<lambda>r. dict_has r ''url'' \<and> \<not> truthy (dict_get r ''error'' PNone)) trace)"
    by (simp add: list_all2_lengthD)
  from assms(4) ss have asm: "assemble trace messages = Inr \<lparr>summary = last messages, sources = ss\<rparr>"
    by (simp add: assemble_def)
  from assms(5) have "conclude h (Inr \<lparr>summary = last messages, sources = ss\<rparr>) =
      Inr \<lparr>summary = last messages, sources = ss\<rparr>"
    by (simp add: conclude_def len)
  with asm assms(3) have res: "research h agent q = Inr \<lparr>summary = last messages, sources = ss\<rparr>"
    by (simp add: research_unfold [OF assms(1,2)])
  have url: "source_record r = Inr s \<Longrightarrow> map_of s ''url'' = map_of r ''url''" for r s
    by (auto dest: source_record_shape)
  from rel have rel': "list_all2 (\<lambda>r s. source_record r = Inr s \<and> map_of s ''url'' = map_of r ''url'')
      (filter (\<lambda>r. dict_has r ''url'' \<and> \<not> truthy (dict_get r ''error'' PNone)) trace) ss"
    by (rule list_all2_mono) (simp add: url)
  have dropped: "\<forall>r \<in> set trace.
      (dict_has r ''url'' \<and> \<not> truthy (dict_get r ''error'' PNone)) \<or>
      (\<exists>m. r = [(''error'', PStr m)])"
    using cap by (auto simp: list_all_iff dest: captured_kept_or_marker)
  have clean: "\<forall>s \<in> set ss. dict_has s ''url'' \<and> \<not> dict_has s ''error''"
  proof
    fix s assume "s \<in> set ss"
    from list_all2_right [OF rel this] obtain r where "source_record r = Inr s" by blast
    from source_record_shape [OF this]
    show "dict_has s ''url'' \<and> \<not> dict_has s ''error''" by (auto simp: dict_has_def)
  qed
  show ?thesis
    by (rule exI [of _ "\<lparr>summary = last messages, sources = ss\<rparr>"])
      (simp add: res rel' dropped clean)
qed

lemma run_search_twice:
  "run_executor (quiet_host env_with_key flaky) (search_twice ''b'') [] =
     ([[(''error'', PStr ''timed out'')],
       [(''url'', PStr ''b''), (''title'', PStr ''''), (''content'', PStr '''')]],
      Inr [PStr ''summary''])"
  by (simp add: search_twice_def internet_search_tracked_def do_internet_search_def
      quiet_host_def env_with_key_def flaky_def search_body_def format_result_def
      dict_get_def py_or_def)

theorem sources_filtered_in_capture_order_witness:
  "stdout (quiet_host env_with_key flaky) (research_started ''b'') = None \<and>
   modules (quiet_host env_with_key flaky) = None \<and>
   run_executor (quiet_host env_with_key flaky) (search_twice ''b'') [] =
     ([[(''error'', PStr ''timed out'')],
       [(''url'', PStr ''b''), (''title'', PStr ''''), (''content'', PStr '''')]],
      Inr [PStr ''summary'']) \<and>
   [PStr ''summary''] \<noteq> [] \<and>
   (\<exists>out. research (quiet_host env_with_key flaky) search_twice ''b'' = Inr out \<and>
      summary out = PStr ''summary'' \<and>
      list_all2 (\<lambda>r s. source_record r = Inr s \<and> map_of s ''url'' = map_of r ''url'')
        [[(''url'', PStr ''b''), (''title'', PStr ''''), (''content'', PStr '''')]]
        (sources out)) \<and>
   research (quiet_host env_with_key flaky) search_twice ''b'' =
     Inr \<lparr>summary = PStr ''summary'',
          sources = [[(''url'', PStr ''b''), (''title'', PStr ''''), (''content'', PStr ''''),
                      (''status'', PStr ''found'')]]\<rparr>"
proof -
  have dropped: "research (quiet_host env_with_key flaky) search_twice ''b'' =
     Inr \<lparr>summary = PStr ''summary'',
          sources = [[(''url'', PStr ''b''), (''title'', PStr ''''), (''content'', PStr ''''),
                      (''status'', PStr ''found'')]]\<rparr>"
  proof -
    have quiet: "stdout (quiet_host env_with_key flaky) l = None" for l
      by (simp add: quiet_host_def)
    have mods: "modules (quiet_host env_with_key flaky) = None"
      by (simp add: quiet_host_def)
    show ?thesis
      by (simp add: research_unfold [OF quiet mods] run_search_twice conclude_def quiet
          assemble_def source_record_def dict_has_def dict_get_def)
  qed
  have started: "stdout (quiet_host env_with_key flaky) (research_started ''b'') = None"
    and mods: "modules (quiet_host env_with_key flaky) = None"
    and fin: "stdout (quiet_host env_with_key flaky)
      (research_completed (length
         (filter (\<lambda>r. dict_has r ''url'' \<and> \<not> truthy (dict_get r ''error'' PNone))
            [[(''error'', PStr ''timed out'')],
             [(''url'', PStr ''b''), (''title'', PStr ''''), (''content'', PStr '''')]]))) = None"
    by (simp_all add: quiet_host_def)
  have msgs: "[PStr ''summary''] \<noteq> []" by simp
  from sources_filtered_in_capture_order
    [of "quiet_host env_with_key flaky" "''b''" search_twice, OF started mods run_search_twice msgs fin]
  have "\<exists>out. research (quiet_host env_with_key flaky) search_twice ''b'' = Inr out \<and>
      summary out = PStr ''summary'' \<and>
      list_all2 (\<lambda>r s. source_record r = Inr s \<and> map_of s ''url'' = map_of r ''url'')
        [[(''url'', PStr ''b''), (''title'', PStr ''''), (''content'', PStr '''')]]
        (sources out)"
    by (simp add: dict_has_def dict_get_def) blast
  with started mods run_search_twice msgs dropped show ?thesis by blast
qed

lemma captured_source_cut:
  assumes "captured_entry r" and "source_record r = Inr s"
  shows "map_of s ''status'' = Some (PStr ''found'') \<and>
         (\<exists>c. map_of s ''content'' = Some c \<and> cut_content c)"
  using source_record_shape [OF assms(2)] by (auto dest: py_slice_to_cut)

lemma captured_string_source:
  assumes "captured_string_entry r" and "source_record r = Inr s"
  shows "\<exists>c. map_of s ''content'' = Some c \<and> cut_string c"
proof -
  from source_record_shape [OF assms(2)] obtain url c
    where url: "map_of r ''url'' = Some url"
      and c: "py_slice_to 3000 (dict_get r ''content'' (PStr '''')) = Inr c"
      and s: "s = [(''url'', url), (''title'', dict_get r ''title'' (PStr '''')),
                (''content'', c), (''status'', PStr ''found'')]"
    by blast
  from url have "\<not> error_marker r" by (auto dest!: error_marker_shape)
  with assms(1) have keys: "map fst r = [''url'', ''title'', ''content'']"
    and cut: "cut_string (dict_get r ''content'' PNone)"
    by (simp_all add: captured_string_entry_def)
  from keys obtain u t c0 where r: "r = [(''url'', u), (''title'', t), (''content'', c0)]"
    by (auto simp: map_eq_Cons_conv)
  with cut obtain x where "c0 = PStr x" "length x \<le> 3000"
    by (auto simp: dict_get_def dest: cut_stringD)
  with r c have "c = PStr (take 3000 x)" by (auto simp: dict_get_def)
  with s show ?thesis by (simp add: cut_string_def)
qed

text \<open>
  The provider's record has a list as its content; the source built from it has that list
  as its content, holding a text of 3001 characters: not a string of at most 3000
  characters (counterexample to C9 as stated).
\<close>

theorem source_content_can_be_a_list:
  "research (quiet_host env_with_key (answering list_content_hit)) search_once ''q'' =
     Inr \<lparr>summary = PStr ''summary'',
          sources =
            [[(''url'', PStr ''https://a.example''), (''title'', PStr ''''),
              (''content'', PList [PStr long_text]), (''status'', PStr ''found'')]]\<rparr> \<and>
   length long_text = 3001 \<and> \<not> is_str (PList [PStr long_text])"
  by (simp add: research_def submit_def run_research_isolated_def run_research_from_def
      conclude_def search_once_def internet_search_tracked_def do_internet_search_def
      quiet_host_def env_with_key_def answering_def list_content_hit_def
      search_body_def format_result_def dict_get_def dict_has_def py_or_def
      assemble_def source_record_def is_str_def long_text_length)

text \<open>
  C9, amended. When \<^verbatim>\<open>research\<close> returns, every entry of \<^verbatim>\<open>sources\<close> has \<^verbatim>\<open>status\<close> equal to
  \<^verbatim>\<open>"found"\<close> and a \<^verbatim>\<open>content\<close> that is a string of at most 3000 characters or a list of at
  most 3000 elements; it is a string of at most 3000 characters when the records of all the
  provider's answers have strings as their fields.
\<close>

theorem sources_found_and_bounded:
  assumes "research h agent q = Inr out"
  shows "(\<forall>s \<in> set (sources out).
            map_of s ''status'' = Some (PStr ''found'') \<and>
            (\<exists>c. map_of s ''content'' = Some c \<and>
               ((\<exists>t. c = PStr t \<and> length t \<le> 3000) \<or>
                (\<exists>xs. c = PList xs \<and> length xs \<le> 3000)))) \<and>
         (string_provider h \<longrightarrow>
            (\<forall>s \<in> set (sources out).
               \<exists>t. map_of s ''content'' = Some (PStr t) \<and> length t \<le> 3000))"
proof (intro conjI impI ballI)
  fix s assume s: "s \<in> set (sources out)"
  from source_of_some_record [OF assms s] obtain r
    where r: "r \<in> set (captured_trace h agent q)" and rec: "source_record r = Inr s" by blast
  from r captured_trace_captured [of h "agent q"] have "captured_entry r"
    by (simp add: captured_trace_def list_all_iff)
  from captured_source_cut [OF this rec]
  show "map_of s ''status'' = Some (PStr ''found'')"
    and "\<exists>c. map_of s ''content'' = Some c \<and>
               ((\<exists>t. c = PStr t \<and> length t \<le> 3000) \<or>
                (\<exists>xs. c = PList xs \<and> length xs \<le> 3000))"
    by (auto dest: cut_contentD)
next
  fix s assume typed: "string_provider h" and s: "s \<in> set (sources out)"
  from source_of_some_record [OF assms s] obtain r
    where r: "r \<in> set (captured_trace h agent q)" and rec: "source_record r = Inr s" by blast
  have "list_all captured_string_entry (fst (run_executor h (agent q) []))"
    by (rule run_executor_string_captured [OF typed]) simp
  with r have "captured_string_entry r"
    by (simp add: captured_trace_def list_all_iff)
  from captured_string_source [OF this rec]
  show "\<exists>t. map_of s ''content'' = Some (PStr t) \<and> length t \<le> 3000"
    by (auto dest: cut_stringD)
qed

lemma research_two_hits:
  "research (quiet_host env_with_key (answering two_hits)) search_once ''q'' =
     Inr \<lparr>summary = PStr ''summary'',
          sources =
            [[(''url'', PStr ''https://a.example''), (''title'', PStr ''A''),
              (''content'', PStr ''alpha''), (''status'', PStr ''found'')],
             [(''url'', PStr ''''), (''title'', PStr ''B''),
              (''content'', PStr ''''), (''status'', PStr ''found'')]]\<rparr>"
  by (simp add: research_def submit_def run_research_isolated_def run_research_from_def
      conclude_def search_once_def internet_search_tracked_def do_internet_search_def
      quiet_host_def env_with_key_def answering_def two_hits_def
      search_body_def format_result_def dict_get_def dict_has_def py_or_def
      assemble_def source_record_def)

lemma two_hits_strings: "string_provider (quiet_host env_with_key (answering two_hits))"
  by (simp add: string_provider_def provider_entries_def quiet_host_def answering_def
      two_hits_def dict_get_def string_fields_def is_str_def)

theorem sources_found_and_bounded_witness:
  "research (quiet_host env_with_key (answering two_hits)) search_once ''q'' =
     Inr \<lparr>summary = PStr ''summary'',
          sources =
            [[(''url'', PStr ''https://a.example''), (''title'', PStr ''A''),
              (''content'', PStr ''alpha''), (''status'', PStr ''found'')],
             [(''url'', PStr ''''), (''title'', PStr ''B''),
              (''content'', PStr ''''), (''status'', PStr ''found'')]]\<rparr> \<and>
   string_provider (quiet_host env_with_key (answering two_hits)) \<and>
   list_all (\<lambda>s. map_of s ''status'' = Some (PStr ''found'') \<and>
               (\<exists>t. map_of s ''content'' = Some (PStr t) \<and> length t \<le> 3000))
     [[(''url'', PStr ''https://a.example''), (''title'', PStr ''A''),
       (''content'', PStr ''alpha''), (''status'', PStr ''found'')],
      [(''url'', PStr ''''), (''title'', PStr ''B''),
       (''content'', PStr ''''), (''status'', PStr ''found'')]]"
  using sources_found_and_bounded [OF research_two_hits] research_two_hits two_hits_strings
  by (simp add: list_all_iff)

lemma run_executor_appends:
  "fst (run_executor h ex search_results) =
     search_results @ concat (returned_lists h ex)"
proof (induction ex arbitrary: search_results)
  case (Return messages)
  show ?case by simp
next
  case (Raise e)
  show ?case by simp
next
  case (Search query max_results k)
  show ?case
  proof (cases "do_internet_search h query (case max_results of None \<Rightarrow> 5 | Some n \<Rightarrow> n)")
    case (Inl e)
    then show ?thesis
      by (simp add: internet_search_tracked_def Search.IH)
  next
    case (Inr results)
    then show ?thesis
      by (simp add: internet_search_tracked_def Search.IH)
  qed
qed

text \<open>
  C6. The tracked search returns exactly the list the search gave it, error markers
  included, and hands back \<open>search_results\<close> with that same list appended; when the search
  raises, nothing is appended. Over a whole nested run, \<open>search_results\<close> ends as what it
  was at the start followed by the lists returned to the agent, in order.
\<close>

theorem tracked_search_appends_what_it_returns:
  "(\<forall>results. do_internet_search h q (case n of None \<Rightarrow> 5 | Some m \<Rightarrow> m) = Inr results \<longrightarrow>
      internet_search_tracked h search_results q n =
        (search_results @ results, Inr results)) \<and>
   (\<forall>e. do_internet_search h q (case n of None \<Rightarrow> 5 | Some m \<Rightarrow> m) = Inl e \<longrightarrow>
      internet_search_tracked h search_results q n = (search_results, Inl e)) \<and>
   fst (run_executor h ex search_results) =
     search_results @ concat (returned_lists h ex)"
  by (simp add: internet_search_tracked_def run_executor_appends)

theorem tracked_search_appends_what_it_returns_witness:
  "do_internet_search (quiet_host env_with_key (failing (PyExc ''ConnectionError'' ''timed out'')))
     ''q'' (case None of None \<Rightarrow> 5 | Some m \<Rightarrow> m) = Inr [[(''error'', PStr ''timed out'')]] \<and>
   internet_search_tracked
     (quiet_host env_with_key (failing (PyExc ''ConnectionError'' ''timed out'')))
     [[(''url'', PStr ''u'')]] ''q'' None =
     ([[(''url'', PStr ''u'')], [(''error'', PStr ''timed out'')]],
      Inr [[(''error'', PStr ''timed out'')]])"
  using tracked_search_appends_what_it_returns
    [of "quiet_host env_with_key (failing (PyExc ''ConnectionError'' ''timed out''))"
      "''q''" None "[[(''url'', PStr ''u'')]]" "Return []"]
  by (simp add: do_internet_search_def quiet_host_def env_with_key_def failing_def
      search_body_def)

text \<open>
  The nested agent raises \<^verbatim>\<open>ValueError\<close> and \<^verbatim>\<open>research\<close> ends with that same
  \<^verbatim>\<open>ValueError\<close>, not with a \<^verbatim>\<open>ResearchFailed\<close> (counterexample to C2 as stated).
\<close>

theorem research_reraises_raw_exception:
  "research (quiet_host env_with_key (answering two_hits)) crashing ''q'' =
     Inl (PyExc ''ValueError'' ''boom'') \<and>
   exc_class (PyExc ''ValueError'' ''boom'') \<noteq> ''ResearchFailed''"
  by (simp add: research_unfold crashing_def conclude_def quiet_host_def)

text \<open>
  C2, amended. Once \<^verbatim>\<open>research\<close> has written its opening line and imported its modules, a
  nested run that raises makes \<^verbatim>\<open>research\<close> end with that very exception, class and message
  unchanged, and with no outcome.
\<close>

theorem research_fault_reaches_caller_unchanged:
  assumes "stdout h (research_started q) = None" and "modules h = None"
    and "snd (run_executor h (agent q) []) = Inl e"
  shows "research h agent q = Inl e"
proof -
  obtain tr r where run: "run_executor h (agent q) [] = (tr, r)"
    by (cases "run_executor h (agent q) []")
  with assms(3) have "r = Inl e" by simp
  with run show ?thesis
    by (simp add: research_unfold [OF assms(1,2)] conclude_def)
qed

theorem research_fault_reaches_caller_unchanged_witness:
  "stdout (quiet_host env_with_key (answering two_hits)) (research_started ''q'') = None \<and>
   modules (quiet_host env_with_key (answering two_hits)) = None \<and>
   snd (run_executor (quiet_host env_with_key (answering two_hits)) (crashing ''q'') []) =
     Inl (PyExc ''ValueError'' ''boom'') \<and>
   research (quiet_host env_with_key (answering two_hits)) crashing ''q'' =
     Inl (PyExc ''ValueError'' ''boom'')"
  using research_fault_reaches_caller_unchanged
    [of "quiet_host env_with_key (answering two_hits)" "''q''" crashing
      "PyExc ''ValueError'' ''boom''"]
  by (simp add: crashing_def quiet_host_def)

section \<open>The allow-list of tool calls\<close>

text \<open>
  C8. The filter forwards no action whose name is outside the configured allow-list, forwards
  the listed ones in stream order, and the allow-list configured in \<^verbatim>\<open>main.py\<close> is exactly
  the five names.
\<close>

theorem observer_forwards_only_listed:
  "(\<forall>a \<in> set (observer_filter (emit_tool_calls agui_config) stream).
      action_name a \<in> {''research'', ''write_todos'', ''write_file'', ''read_file'', ''edit_file''}) \<and>
   subseq (observer_filter (emit_tool_calls agui_config) stream) stream \<and>
   emit_tool_calls agui_config =
     [''research'', ''write_todos'', ''write_file'', ''read_file'', ''edit_file'']"
  by (auto simp: observer_filter_def agui_config_def copilotkit_customize_config_def)

theorem observer_forwards_only_listed_witness:
  "observer_filter (emit_tool_calls agui_config)
     [\<lparr>action_name = ''internet_search'', payload = PNone\<rparr>,
      \<lparr>action_name = ''research'', payload = PStr ''q''\<rparr>,
      \<lparr>action_name = ''write_file'', payload = PNone\<rparr>] =
     [\<lparr>action_name = ''research'', payload = PStr ''q''\<rparr>,
      \<lparr>action_name = ''write_file'', payload = PNone\<rparr>] \<and>
   list_all (\<lambda>a. action_name a \<in>
       {''research'', ''write_todos'', ''write_file'', ''read_file'', ''edit_file''})
     (observer_filter (emit_tool_calls agui_config)
       [\<lparr>action_name = ''internet_search'', payload = PNone\<rparr>,
        \<lparr>action_name = ''research'', payload = PStr ''q''\<rparr>,
        \<lparr>action_name = ''write_file'', payload = PNone\<rparr>])"
  using observer_forwards_only_listed
    [of "[\<lparr>action_name = ''internet_search'', payload = PNone\<rparr>,
          \<lparr>action_name = ''research'', payload = PStr ''q''\<rparr>,
          \<lparr>action_name = ''write_file'', payload = PNone\<rparr>]"]
  by (simp add: observer_filter_def agui_config_def copilotkit_customize_config_def)

section \<open>The query client: the shapes of its dictionaries\<close>

lemma format_result_fields:
  assumes "format_result r = Inr d"
  shows "\<exists>kvs. r = PDict kvs \<and> map fst d = [''url'', ''title'', ''content''] \<and>
           map_of d ''url'' = Some (dict_get kvs ''url'' (PStr '''')) \<and>
           map_of d ''title'' = Some (dict_get kvs ''title'' (PStr '''')) \<and>
           (\<not> truthy (dict_get kvs ''content'' PNone) \<longrightarrow> map_of d ''content'' = Some (PStr '''')) \<and>
           dict_has d ''url'' \<and> \<not> truthy (dict_get d ''error'' PNone)"
proof -
  from format_result_shape [OF assms] obtain kvs c where r: "r = PDict kvs"
    and c: "py_slice_to 3000 (py_or (dict_get kvs ''content'' PNone) (PStr '''')) = Inr c"
    and d: "d = [(''url'', dict_get kvs ''url'' (PStr '''')),
                (''title'', dict_get kvs ''title'' (PStr '''')), (''content'', c)]"
    by blast
  have "c = PStr ''''" if "\<not> truthy (dict_get kvs ''content'' PNone)"
    using c that by (simp add: py_or_def)
  with r d show ?thesis by (simp add: dict_has_def dict_get_def)
qed

lemma format_result_strings:
  assumes "format_result r = Inr d" and "string_fields r"
  shows "list_all is_str (map snd d)"
proof -
  from format_result_shape [OF assms(1)] obtain kvs c where r: "r = PDict kvs"
    and c: "py_slice_to 3000 (py_or (dict_get kvs ''content'' PNone) (PStr '''')) = Inr c"
    and d: "d = [(''url'', dict_get kvs ''url'' (PStr '''')),
                (''title'', dict_get kvs ''title'' (PStr '''')), (''content'', c)]"
    by blast
  from assms(2) r have u: "is_str (dict_get kvs ''url'' (PStr ''''))"
    and t: "is_str (dict_get kvs ''title'' (PStr ''''))"
    by (auto simp: string_fields_def dict_get_def is_str_def split: option.splits)
  from assms(2) r have "is_str (py_or (dict_get kvs ''content'' PNone) (PStr ''''))"
    by (auto simp: string_fields_def dict_get_def is_str_def py_or_def split: option.splits pyval.splits)
  with c have "is_str c"
    by (cases "py_or (dict_get kvs ''content'' PNone) (PStr '''')") (auto simp: is_str_def)
  with u t d show ?thesis by simp
qed

lemma empty_url_source:
  assumes "format_result (PDict kvs) = Inr d" and "map_of kvs ''url'' = None"
  shows "map_of d ''url'' = Some (PStr '''') \<and>
         (\<exists>s. source_record d = Inr s \<and> map_of s ''url'' = Some (PStr ''''))"
proof -
  from format_result_shape [OF assms(1)] obtain c where
    c: "py_slice_to 3000 (py_or (dict_get kvs ''content'' PNone) (PStr '''')) = Inr c"
    and d: "d = [(''url'', dict_get kvs ''url'' (PStr '''')),
                (''title'', dict_get kvs ''title'' (PStr '''')), (''content'', c)]"
    by blast
  from c obtain c' where "py_slice_to 3000 c = Inr c'"
    by (cases "py_or (dict_get kvs ''content'' PNone) (PStr '''')") auto
  with d assms(2) show ?thesis
    by (simp add: source_record_def dict_get_def)
qed

lemma formatted_record:
  assumes f: "format_result r = Inr d"
  shows "\<exists>kvs. r = PDict kvs \<and> map fst d = [''url'', ''title'', ''content''] \<and>
           map_of d ''url'' = Some (dict_get kvs ''url'' (PStr '''')) \<and>
           map_of d ''title'' = Some (dict_get kvs ''title'' (PStr '''')) \<and>
           (\<not> truthy (dict_get kvs ''content'' PNone) \<longrightarrow>
              map_of d ''content'' = Some (PStr '''')) \<and>
           (string_fields r \<longrightarrow> list_all is_str (map snd d)) \<and>
           dict_has d ''url'' \<and> \<not> truthy (dict_get d ''error'' PNone) \<and>
           (map_of kvs ''url'' = None \<longrightarrow>
              map_of d ''url'' = Some (PStr '''') \<and>
              (\<exists>s. source_record d = Inr s \<and> map_of s ''url'' = Some (PStr '''')))"
proof -
  from format_result_shape [OF f] obtain kvs c where r: "r = PDict kvs"
    and c: "py_slice_to 3000 (py_or (dict_get kvs ''content'' PNone) (PStr '''')) = Inr c"
    and d: "d = [(''url'', dict_get kvs ''url'' (PStr '''')),
                (''title'', dict_get kvs ''title'' (PStr '''')), (''content'', c)]"
    by blast
  have p1: "map fst d = [''url'', ''title'', ''content'']" by (simp add: d)
  have p2: "map_of d ''url'' = Some (dict_get kvs ''url'' (PStr ''''))" by (simp add: d)
  have p3: "map_of d ''title'' = Some (dict_get kvs ''title'' (PStr ''''))" by (simp add: d)
  have p4: "\<not> truthy (dict_get kvs ''content'' PNone) \<longrightarrow>
      map_of d ''content'' = Some (PStr '''')"
    using c by (auto simp: d py_or_def)
  have p5: "string_fields r \<longrightarrow> list_all is_str (map snd d)"
    using f by (simp add: format_result_strings)
  have p6: "dict_has d ''url''" by (simp add: d dict_has_def)
  have p7: "\<not> truthy (dict_get d ''error'' PNone)" by (simp add: d dict_get_def)
  have p8: "map_of kvs ''url'' = None \<longrightarrow>
      map_of d ''url'' = Some (PStr '''') \<and>
      (\<exists>s. source_record d = Inr s \<and> map_of s ''url'' = Some (PStr ''''))"
    using f unfolding r by (blast dest: empty_url_source)
  show ?thesis
    by (rule exI [of _ kvs]) (intro conjI r p1 p2 p3 p4 p5 p6 p7 p8)
qed

text \<open>
  A provider record whose \<^verbatim>\<open>url\<close> is \<^verbatim>\<open>None\<close> gives a result whose \<^verbatim>\<open>url\<close> is \<^verbatim>\<open>None\<close>,
  not a string: \<^verbatim>\<open>r.get("url", "")\<close> defaults only an absent key (counterexample to C10 as
  stated).
\<close>

theorem result_url_can_be_none:
  "do_internet_search (quiet_host env_with_key (answering null_url_hit)) ''q'' 5 =
     Inr [[(''url'', PNone), (''title'', PStr ''T''), (''content'', PStr '''')]] \<and>
   \<not> is_str PNone"
  by (simp add: do_internet_search_def quiet_host_def env_with_key_def answering_def
      null_url_hit_def
      search_body_def format_result_def dict_get_def py_or_def is_str_def)

text \<open>
  C10, amended. What the search returns is either the failure marker, a single dictionary
  whose only key is \<^verbatim>\<open>error\<close>, or one dictionary for each entry of the provider's answer,
  with exactly the keys \<^verbatim>\<open>url\<close>, \<^verbatim>\<open>title\<close> and \<^verbatim>\<open>content\<close>: \<^verbatim>\<open>url\<close> and \<^verbatim>\<open>title\<close> are the
  provider's values, the empty string when the key is absent; \<^verbatim>\<open>content\<close> is the empty
  string when the provider's is absent, \<^verbatim>\<open>None\<close> or otherwise false; all three are strings
  when the provider's fields are. Every such dictionary passes the test of the
  \<^verbatim>\<open>sources\<close> comprehension, and one built from a record without \<^verbatim>\<open>url\<close> has the empty
  string as \<^verbatim>\<open>url\<close> and becomes a source with the empty string as \<^verbatim>\<open>url\<close>; a run of
  \<^verbatim>\<open>research\<close> whose \<^verbatim>\<open>sources\<close> holds such an entry exists.
\<close>

theorem result_dict_shapes:
  assumes "environ h ''TAVILY_API_KEY'' = Some k"
    and "do_internet_search h q n = Inr out"
  shows "((\<exists>m. out = [[(''error'', PStr m)]]) \<or>
          list_all2
            (\<lambda>r d. \<exists>kvs. r = PDict kvs \<and> map fst d = [''url'', ''title'', ''content''] \<and>
               map_of d ''url'' = Some (dict_get kvs ''url'' (PStr '''')) \<and>
               map_of d ''title'' = Some (dict_get kvs ''title'' (PStr '''')) \<and>
               (\<not> truthy (dict_get kvs ''content'' PNone) \<longrightarrow>
                  map_of d ''content'' = Some (PStr '''')) \<and>
               (string_fields r \<longrightarrow> list_all is_str (map snd d)) \<and>
               dict_has d ''url'' \<and> \<not> truthy (dict_get d ''error'' PNone) \<and>
               (map_of kvs ''url'' = None \<longrightarrow>
                  map_of d ''url'' = Some (PStr '''') \<and>
                  (\<exists>s. source_record d = Inr s \<and> map_of s ''url'' = Some (PStr ''''))))
            (provider_entries h k q n) out) \<and>
         (\<exists>h' agent' q' out' s. research h' agent' q' = Inr out' \<and>
            s \<in> set (sources out') \<and> map_of s ''url'' = Some (PStr ''''))"
proof (rule conjI)
  from do_internet_search_cases [OF assms(2)] assms(1)
  consider (ok) "search_body h k q n = Inr out"
    | (failed) e where "out = [[(''error'', PStr (exc_str e))]]"
    by auto
  then show "(\<exists>m. out = [[(''error'', PStr m)]]) \<or>
          list_all2
            (\<lambda>r d. \<exists>kvs. r = PDict kvs \<and> map fst d = [''url'', ''title'', ''content''] \<and>
               map_of d ''url'' = Some (dict_get kvs ''url'' (PStr '''')) \<and>
               map_of d ''title'' = Some (dict_get kvs ''title'' (PStr '''')) \<and>
               (\<not> truthy (dict_get kvs ''content'' PNone) \<longrightarrow>
                  map_of d ''content'' = Some (PStr '''')) \<and>
               (string_fields r \<longrightarrow> list_all is_str (map snd d)) \<and>
               dict_has d ''url'' \<and> \<not> truthy (dict_get d ''error'' PNone) \<and>
               (map_of kvs ''url'' = None \<longrightarrow>
                  map_of d ''url'' = Some (PStr '''') \<and>
                  (\<exists>s. source_record d = Inr s \<and> map_of s ''url'' = Some (PStr ''''))))
            (provider_entries h k q n) out"
  proof cases
    case failed
    show ?thesis by (rule disjI1, rule exI [of _ "exc_str e"], rule failed)
  next
    case ok
    from search_body_success [OF ok]
    have "list_all2 (\<lambda>r d. format_result r = Inr d) (provider_entries h k q n) out" .
    then show ?thesis
      by (intro disjI2) (erule list_all2_mono, erule formatted_record)
  qed
next
  have mem: "[(''url'', PStr ''''), (''title'', PStr ''B''), (''content'', PStr ''''),
         (''status'', PStr ''found'')]
        \<in> set (sources \<lparr>summary = PStr ''summary'',
          sources =
            [[(''url'', PStr ''https://a.example''), (''title'', PStr ''A''),
              (''content'', PStr ''alpha''), (''status'', PStr ''found'')],
             [(''url'', PStr ''''), (''title'', PStr ''B''),
              (''content'', PStr ''''), (''status'', PStr ''found'')]]\<rparr>)"
    by simp
  have url: "map_of [(''url'', PStr ''''), (''title'', PStr ''B''), (''content'', PStr ''''),
         (''status'', PStr ''found'')] ''url'' = Some (PStr '''')"
    by simp
  show "\<exists>h' agent' q' out' s. research h' agent' q' = Inr out' \<and>
            s \<in> set (sources out') \<and> map_of s ''url'' = Some (PStr '''')"
    apply (rule exI [of _ "quiet_host env_with_key (answering two_hits)"])
    apply (rule exI [of _ search_once])
    apply (rule exI [of _ "''q''"])
    apply (intro exI conjI)
      apply (rule research_two_hits)
     apply (rule mem)
    apply (rule url)
    done
qed

theorem result_dict_shapes_witness:
  "environ (quiet_host env_with_key (answering two_hits)) ''TAVILY_API_KEY'' =
     Some ''tvly-demo'' \<and>
   do_internet_search (quiet_host env_with_key (answering two_hits)) ''q'' 5 =
     Inr [[(''url'', PStr ''https://a.example''), (''title'', PStr ''A''),
           (''content'', PStr ''alpha'')],
          [(''url'', PStr ''''), (''title'', PStr ''B''), (''content'', PStr '''')]] \<and>
   provider_entries (quiet_host env_with_key (answering two_hits)) ''tvly-demo'' ''q'' 5 =
     [PDict [(''url'', PStr ''https://a.example''), (''title'', PStr ''A''),
             (''content'', PStr ''alpha'')],
      PDict [(''title'', PStr ''B''), (''content'', PNone)]] \<and>
   map fst [(''url'', PStr ''''), (''title'', PStr ''B''), (''content'', PStr '''')] =
     [''url'', ''title'', ''content''] \<and>
   dict_has [(''url'', PStr ''''), (''title'', PStr ''B''), (''content'', PStr '''')] ''url''"
proof -
  have key: "environ (quiet_host env_with_key (answering two_hits)) ''TAVILY_API_KEY'' =
      Some ''tvly-demo''"
    by (simp add: quiet_host_def env_with_key_def)
  have out: "do_internet_search (quiet_host env_with_key (answering two_hits)) ''q'' 5 =
     Inr [[(''url'', PStr ''https://a.example''), (''title'', PStr ''A''),
           (''content'', PStr ''alpha'')],
          [(''url'', PStr ''''), (''title'', PStr ''B''), (''content'', PStr '''')]]"
    by (simp add: do_internet_search_def quiet_host_def env_with_key_def answering_def
        two_hits_def
        search_body_def format_result_def dict_get_def py_or_def)
  have entries:
    "provider_entries (quiet_host env_with_key (answering two_hits)) ''tvly-demo'' ''q'' 5 =
     [PDict [(''url'', PStr ''https://a.example''), (''title'', PStr ''A''),
             (''content'', PStr ''alpha'')],
      PDict [(''title'', PStr ''B''), (''content'', PNone)]]"
    by (simp add: provider_entries_def quiet_host_def answering_def two_hits_def dict_get_def)
  from result_dict_shapes [OF key out, THEN conjunct1]
  have "list_all2
          (\<lambda>r d. \<exists>kvs. r = PDict kvs \<and> map fst d = [''url'', ''title'', ''content''] \<and>
             map_of d ''url'' = Some (dict_get kvs ''url'' (PStr '''')) \<and>
             map_of d ''title'' = Some (dict_get kvs ''title'' (PStr '''')) \<and>
             (\<not> truthy (dict_get kvs ''content'' PNone) \<longrightarrow>
                map_of d ''content'' = Some (PStr '''')) \<and>
             (string_fields r \<longrightarrow> list_all is_str (map snd d)) \<and>
             dict_has d ''url'' \<and> \<not> truthy (dict_get d ''error'' PNone) \<and>
             (map_of kvs ''url'' = None \<longrightarrow>
                map_of d ''url'' = Some (PStr '''') \<and>
                (\<exists>s. source_record d = Inr s \<and> map_of s ''url'' = Some (PStr ''''))))
          (provider_entries (quiet_host env_with_key (answering two_hits)) ''tvly-demo'' ''q'' 5)
          [[(''url'', PStr ''https://a.example''), (''title'', PStr ''A''),
            (''content'', PStr ''alpha'')],
           [(''url'', PStr ''''), (''title'', PStr ''B''), (''content'', PStr '''')]]"
    by (elim disjE exE) simp_all
  then have "map fst [(''url'', PStr ''''), (''title'', PStr ''B''), (''content'', PStr '''')] =
       [''url'', ''title'', ''content''] \<and>
     dict_has [(''url'', PStr ''''), (''title'', PStr ''B''), (''content'', PStr '''')] ''url''"
    unfolding entries list_all2_Cons by blast
  with key out entries show ?thesis by simp
qed

section \<open>Calls in flight together: each call its own list and its own pool\<close>

lemma advance_store_other:
  assumes inv: "traces_apart h agent s"
    and cur: "calls s i = Some (Running p q a ex)"
    and other: "j \<noteq> i"
  shows "store (advance h agent s j) a = store s a"
proof -
  from traces_apart_running [OF inv cur] obtain tr where tr: "store s a = Some tr" by blast
  from traces_apart_bound [OF inv tr] have fresh: "a \<noteq> next_addr s" by simp
  show ?thesis
  proof (cases "calls s j")
    case None
    then show ?thesis by (simp add: advance_def)
  next
    case (Some ph)
    show ?thesis
    proof (cases ph)
      case (Submitted p' q')
      with Some fresh show ?thesis
        by (simp add: advance_def split: option.splits)
    next
      case (Resolved p' q' r)
      with Some show ?thesis by (simp add: advance_def)
    next
      case (Running p' q' a' ex')
      with Some have run: "calls s j = Some (Running p' q' a' ex')" by simp
      from traces_apart_distinct [OF inv run, of i p q ex] cur other have ne: "a' \<noteq> a" by blast
      show ?thesis
      proof (cases "store s a'")
        case None
        with run show ?thesis by (simp add: advance_def)
      next
        case tr': (Some tr')
        show ?thesis
        proof (cases ex')
          case (Return messages)
          with run tr' show ?thesis by (simp add: advance_def)
        next
          case (Raise e)
          with run tr' show ?thesis by (simp add: advance_def)
        next
          case (Search q0 n k)
          with run tr' ne show ?thesis
            by (simp add: advance_def split: prod.splits)
        qed
      qed
    qed
  qed
qed

lemma step_store_other:
  assumes inv: "traces_apart h agent s"
    and cur: "calls s i = Some (Running p q a ex)"
    and other: "ev \<noteq> Advance i"
  shows "store (step h agent s ev) a = store s a"
proof (cases ev)
  case (Issue j query)
  then show ?thesis by (simp add: issue_def split: option.splits if_splits)
next
  case (Advance j)
  with other have "j \<noteq> i" by simp
  with Advance show ?thesis by (simp add: advance_store_other [OF inv cur])
qed

lemma fresh_address:
  assumes inv: "traces_apart h agent s"
  shows "store s (next_addr s) = None"
proof (cases "store s (next_addr s)")
  case None
  then show ?thesis .
next
  case (Some tr)
  from traces_apart_bound [OF inv this] show ?thesis by simp
qed

lemma submitted_store:
  assumes inv: "pools_apart s" and sub: "calls s i = Some (Submitted p query)"
  shows "store (advance h agent s i) (next_addr s) = Some []"
  using pools_apart_pool [OF inv sub] sub by (simp add: advance_def)

lemma running_trace_own:
  assumes inv: "traces_apart h agent s"
    and cur: "calls s i = Some (Running p q a ex)"
  shows "\<exists>tr. store s a = Some tr \<and>
           tr @ concat (returned_lists h ex) = captured_trace h agent q"
proof -
  from traces_apart_running [OF inv cur] obtain tr where tr: "store s a = Some tr"
    and eq: "run_executor h ex tr = run_executor h (agent q) []" by blast
  from eq have "fst (run_executor h ex tr) = captured_trace h agent q"
    by (simp add: captured_trace_def)
  then have "tr @ concat (returned_lists h ex) = captured_trace h agent q"
    by (simp add: run_executor_appends)
  with tr show ?thesis by blast
qed

text \<open>
  C7. In every state that any schedule of calls reaches: a call that starts its job gets an
  address no list lives at yet, holding the empty list; two running calls never hold the same
  address; no event other than a call's own step changes that call's list; the list of a
  running call, followed by what the rest of its own nested run captures, is the list the
  call captures when it runs alone; and a resolved call holds the outcome of \<open>research\<close> on
  its own query.
\<close>

theorem every_call_owns_its_trace:
  assumes "s = run_schedule h agent evs"
  shows "(\<forall>i p q. calls s i = Some (Submitted p q) \<longrightarrow>
            store s (next_addr s) = None \<and>
            calls (step h agent s (Advance i)) i =
              Some (Running p q (next_addr s) (agent q)) \<and>
            store (step h agent s (Advance i)) (next_addr s) = Some []) \<and>
         (\<forall>i j p q a ex p' q' a' ex'.
            calls s i = Some (Running p q a ex) \<longrightarrow>
            calls s j = Some (Running p' q' a' ex') \<longrightarrow> i \<noteq> j \<longrightarrow> a \<noteq> a') \<and>
         (\<forall>i p q a ex ev. calls s i = Some (Running p q a ex) \<longrightarrow> ev \<noteq> Advance i \<longrightarrow>
            store (step h agent s ev) a = store s a) \<and>
         (\<forall>i p q a ex. calls s i = Some (Running p q a ex) \<longrightarrow>
            (\<exists>tr. store s a = Some tr \<and>
               tr @ concat (returned_lists h ex) = captured_trace h agent q)) \<and>
         (\<forall>i p q r. calls s i = Some (Resolved p q r) \<longrightarrow> r = research h agent q)"
proof -
  have tinv: "traces_apart h agent s"
    unfolding assms by (rule traces_apart_run_schedule)
  have pinv: "pools_apart s"
    unfolding assms by (rule pools_apart_run_schedule)
  have start: "store s (next_addr s) = None \<and>
      calls (step h agent s (Advance i)) i =
        Some (Running p q (next_addr s) (agent q)) \<and>
      store (step h agent s (Advance i)) (next_addr s) = Some []"
    if "calls s i = Some (Submitted p q)" for i p q
    using fresh_address [OF tinv] submitted_starts [OF pinv that] submitted_store [OF pinv that]
    by simp
  have apart: "a \<noteq> a'"
    if "calls s i = Some (Running p q a ex)" "calls s j = Some (Running p' q' a' ex')" "i \<noteq> j"
    for i j p q a ex p' q' a' ex'
    using traces_apart_distinct [OF tinv that(1), of j p' q' ex'] that(2,3) by blast
  have frame: "store (step h agent s ev) a = store s a"
    if "calls s i = Some (Running p q a ex)" "ev \<noteq> Advance i" for i p q a ex ev
    using that by (rule step_store_other [OF tinv])
  have own: "\<exists>tr. store s a = Some tr \<and>
      tr @ concat (returned_lists h ex) = captured_trace h agent q"
    if "calls s i = Some (Running p q a ex)" for i p q a ex
    using that by (rule running_trace_own [OF tinv])
  have fin: "r = research h agent q"
    if "calls s i = Some (Resolved p q r)" for i p q r
    using that by (rule traces_apart_resolved [OF tinv])
  show ?thesis
    apply (intro conjI allI impI)
          apply (erule start [THEN conjunct1])
         apply (erule start [THEN conjunct2, THEN conjunct1])
        apply (erule start [THEN conjunct2, THEN conjunct2])
       apply (erule (2) apart)
      apply (erule (1) frame)
     apply (erule own)
    apply (erule fin)
    done
qed

lemma both_resolved:
  "calls (run_schedule (quiet_host env_with_key echoing) search_once
     [Issue 0 ''a'', Advance 0, Issue 1 ''b'', Advance 1, Advance 1, Advance 0, Advance 1,
      Advance 0]) 0 =
     Some (Resolved 0 ''a'' (Inr \<lparr>summary = PStr ''summary'',
        sources = [[(''url'', PStr ''a''), (''title'', PStr ''''), (''content'', PStr ''''),
                    (''status'', PStr ''found'')]]\<rparr>))"
  by (simp add: run_schedule_def initial_def issue_def advance_def release_def search_once_def
      internet_search_tracked_def do_internet_search_def quiet_host_def env_with_key_def
      echoing_def conclude_def
      search_body_def format_result_def dict_get_def dict_has_def py_or_def
      assemble_def source_record_def)

theorem every_call_owns_its_trace_witness:
  "calls (run_schedule (quiet_host env_with_key echoing) search_once
     [Issue 0 ''a'', Advance 0, Issue 1 ''b'', Advance 1, Advance 1, Advance 0, Advance 1,
      Advance 0]) 0 =
     Some (Resolved 0 ''a'' (Inr \<lparr>summary = PStr ''summary'',
        sources = [[(''url'', PStr ''a''), (''title'', PStr ''''), (''content'', PStr ''''),
                    (''status'', PStr ''found'')]]\<rparr>)) \<and>
   research (quiet_host env_with_key echoing) search_once ''a'' =
     Inr \<lparr>summary = PStr ''summary'',
        sources = [[(''url'', PStr ''a''), (''title'', PStr ''''), (''content'', PStr ''''),
                    (''status'', PStr ''found'')]]\<rparr>"
proof (rule conjI)
  show "calls (run_schedule (quiet_host env_with_key echoing) search_once
     [Issue 0 ''a'', Advance 0, Issue 1 ''b'', Advance 1, Advance 1, Advance 0, Advance 1,
      Advance 0]) 0 =
     Some (Resolved 0 ''a'' (Inr \<lparr>summary = PStr ''summary'',
        sources = [[(''url'', PStr ''a''), (''title'', PStr ''''), (''content'', PStr ''''),
                    (''status'', PStr ''found'')]]\<rparr>))"
    by (rule both_resolved)
  from every_call_owns_its_trace [OF refl, of "quiet_host env_with_key echoing" search_once
      "[Issue 0 ''a'', Advance 0, Issue 1 ''b'', Advance 1, Advance 1, Advance 0, Advance 1,
        Advance 0]",
      THEN conjunct2, THEN conjunct2, THEN conjunct2, THEN conjunct2, rule_format,
      OF both_resolved]
  show "research (quiet_host env_with_key echoing) search_once ''a'' =
     Inr \<lparr>summary = PStr ''summary'',
        sources = [[(''url'', PStr ''a''), (''title'', PStr ''''), (''content'', PStr ''''),
                    (''status'', PStr ''found'')]]\<rparr>"
    by (rule sym)
qed

text \<open>
  A second call is issued while the first is running; both run at the same time, each on its
  own pool, and the second is resolved while the first is still running (counterexample to
  C1 as stated).
\<close>

theorem second_call_overtakes_first:
  "calls (run_schedule (quiet_host env_with_key echoing) search_once
     [Issue 0 ''a'', Advance 0, Issue 1 ''b'', Advance 1]) 0 =
     Some (Running 0 ''a'' 0 (search_once ''a'')) \<and>
   calls (run_schedule (quiet_host env_with_key echoing) search_once
     [Issue 0 ''a'', Advance 0, Issue 1 ''b'', Advance 1]) 1 =
     Some (Running 1 ''b'' 1 (search_once ''b'')) \<and>
   calls (run_schedule (quiet_host env_with_key echoing) search_once
     [Issue 0 ''a'', Advance 0, Issue 1 ''b'', Advance 1, Advance 1, Advance 1]) 0 =
     Some (Running 0 ''a'' 0 (search_once ''a'')) \<and>
   calls (run_schedule (quiet_host env_with_key echoing) search_once
     [Issue 0 ''a'', Advance 0, Issue 1 ''b'', Advance 1, Advance 1, Advance 1]) 1 =
     Some (Resolved 1 ''b'' (Inr \<lparr>summary = PStr ''summary'',
        sources = [[(''url'', PStr ''b''), (''title'', PStr ''''), (''content'', PStr ''''),
                    (''status'', PStr ''found'')]]\<rparr>))"
  by (simp add: run_schedule_def initial_def issue_def advance_def release_def search_once_def
      internet_search_tracked_def do_internet_search_def quiet_host_def env_with_key_def
      echoing_def conclude_def
      search_body_def format_result_def dict_get_def dict_has_def py_or_def
      assemble_def source_record_def)

text \<open>
  C1, amended. In every state that any schedule of calls reaches: every call has a pool with
  one worker, busy exactly while that call's job runs; no two calls have the same pool; a
  submitted job starts at its call's next step whatever the other calls are doing, so no call
  queues behind another; and a call is resolved only with the outcome of its own job.
\<close>

theorem every_call_has_its_own_pool:
  assumes "s = run_schedule h agent evs"
  shows "(\<forall>i ph. calls s i = Some ph \<longrightarrow>
            (\<exists>pl. pools s (pool_of ph) = Some pl \<and> max_workers pl = 1 \<and>
               busy pl = (if is_running ph then 1 else 0))) \<and>
         (\<forall>i j ph ph'. calls s i = Some ph \<longrightarrow> calls s j = Some ph' \<longrightarrow> i \<noteq> j \<longrightarrow>
            pool_of ph \<noteq> pool_of ph') \<and>
         (\<forall>i p q. calls s i = Some (Submitted p q) \<longrightarrow>
            calls (step h agent s (Advance i)) i =
              Some (Running p q (next_addr s) (agent q))) \<and>
         (\<forall>i p q r. calls s i = Some (Resolved p q r) \<longrightarrow> r = research h agent q)"
proof -
  have tinv: "traces_apart h agent s"
    unfolding assms by (rule traces_apart_run_schedule)
  have pinv: "pools_apart s"
    unfolding assms by (rule pools_apart_run_schedule)
  have own: "\<exists>pl. pools s (pool_of ph) = Some pl \<and> max_workers pl = 1 \<and>
      busy pl = (if is_running ph then 1 else 0)"
    if "calls s i = Some ph" for i ph
    using pools_apart_pool [OF pinv that] by simp
  have apart: "pool_of ph \<noteq> pool_of ph'"
    if "calls s i = Some ph" "calls s j = Some ph'" "i \<noteq> j" for i j ph ph'
    using pools_apart_distinct [OF pinv that(1,2)] that(3) by blast
  have start: "calls (step h agent s (Advance i)) i =
      Some (Running p q (next_addr s) (agent q))"
    if "calls s i = Some (Submitted p q)" for i p q
    using submitted_starts [OF pinv that] by simp
  have fin: "r = research h agent q"
    if "calls s i = Some (Resolved p q r)" for i p q r
    using that by (rule traces_apart_resolved [OF tinv])
  show ?thesis
    apply (intro conjI allI impI)
       apply (erule own)
      apply (erule (2) apart)
     apply (erule start)
    apply (erule fin)
    done
qed

lemma second_submitted:
  "calls (run_schedule (quiet_host env_with_key echoing) search_once
     [Issue 0 ''a'', Advance 0, Issue 1 ''b'']) 1 = Some (Submitted 1 ''b'')"
  by (simp add: run_schedule_def initial_def issue_def advance_def quiet_host_def)

theorem every_call_has_its_own_pool_witness:
  "calls (run_schedule (quiet_host env_with_key echoing) search_once
     [Issue 0 ''a'', Advance 0, Issue 1 ''b'']) 0 = Some (Running 0 ''a'' 0 (search_once ''a'')) \<and>
   calls (run_schedule (quiet_host env_with_key echoing) search_once
     [Issue 0 ''a'', Advance 0, Issue 1 ''b'']) 1 = Some (Submitted 1 ''b'') \<and>
   calls (step (quiet_host env_with_key echoing) search_once
     (run_schedule (quiet_host env_with_key echoing) search_once [Issue 0 ''a'', Advance 0, Issue 1 ''b''])
     (Advance 1)) 1 =
     Some (Running 1 ''b''
       (next_addr (run_schedule (quiet_host env_with_key echoing) search_once
          [Issue 0 ''a'', Advance 0, Issue 1 ''b'']))
       (search_once ''b''))"
proof (intro conjI)
  show "calls (run_schedule (quiet_host env_with_key echoing) search_once
     [Issue 0 ''a'', Advance 0, Issue 1 ''b'']) 0 = Some (Running 0 ''a'' 0 (search_once ''a''))"
    by (simp add: run_schedule_def initial_def issue_def advance_def quiet_host_def)
  show "calls (run_schedule (quiet_host env_with_key echoing) search_once
     [Issue 0 ''a'', Advance 0, Issue 1 ''b'']) 1 = Some (Submitted 1 ''b'')"
    by (rule second_submitted)
  from every_call_has_its_own_pool [OF refl, of "quiet_host env_with_key echoing" search_once
      "[Issue 0 ''a'', Advance 0, Issue 1 ''b'']",
      THEN conjunct2, THEN conjunct2, THEN conjunct1, rule_format, OF second_submitted]
  show "calls (step (quiet_host env_with_key echoing) search_once
     (run_schedule (quiet_host env_with_key echoing) search_once [Issue 0 ''a'', Advance 0, Issue 1 ''b''])
     (Advance 1)) 1 =
     Some (Running 1 ''b''
       (next_addr (run_schedule (quiet_host env_with_key echoing) search_once
          [Issue 0 ''a'', Advance 0, Issue 1 ''b'']))
       (search_once ''b''))" .
qed

end
